theory Spec2Isabelle
  imports Main "HOL-Library.Extended_Nat"
begin



section \<open>Data model (types.ts, algorithms.ts)\<close>

datatype CellType = Empty | Start | End | Wall | Path | Visited

record Cell =
  type :: CellType
  row :: int
  col :: int

record Position =
  row :: int
  col :: int

record AlgorithmResult =
  path :: "Position list"
  visited :: "Position list"
  success :: bool

type_synonym Grid = "Cell list list"

text \<open>
  The only exception the engine can raise is the \<open>TypeError\<close> of reading a property of
  \<open>undefined\<close>. A call that loops forever has the value \<open>None\<close>; a call that returns
  gives back the grid it was handed (the heap object the caller still holds) together
  with the result.
\<close>

datatype error = TypeError

type_synonym 'a call = "(error + Grid \<times> 'a) option"

text \<open>
  The source keys its sets and maps by the string \<open>`${row},${col}`\<close> (greedyBestFirst:
  \<open>`${row}-${col}`\<close>). Keys are only built from in-bounds (non-negative) coordinates,
  where the encoding is injective, so a key is modelled by the position itself.
  A \<open>Map<string, number>\<close> is a function to \<open>enat option\<close>: \<open>Some \<infinity>\<close> is
  \<open>Infinity\<close>, and \<open>None\<close> is what JavaScript yields for a missing key and for the
  \<open>NaN\<close> that arithmetic on it produces (both make every comparison false).
\<close>

definition js_lt :: "enat option \<Rightarrow> enat option \<Rightarrow> bool" where
  "js_lt a b = (case a of None \<Rightarrow> False | Some x \<Rightarrow> (case b of None \<Rightarrow> False | Some y \<Rightarrow> x < y))"

definition js_ge :: "enat option \<Rightarrow> enat option \<Rightarrow> bool" where
  "js_ge a b = (case a of None \<Rightarrow> False | Some x \<Rightarrow> (case b of None \<Rightarrow> False | Some y \<Rightarrow> x \<ge> y))"

definition js_plus :: "enat option \<Rightarrow> enat \<Rightarrow> enat option" where
  "js_plus a n = (case a of None \<Rightarrow> None | Some x \<Rightarrow> Some (x + n))"

definition emptyResult :: AlgorithmResult where
  "emptyResult = \<lparr>path = [], visited = [], success = False\<rparr>"

subsection \<open>Reading the grid\<close>

definition cellAt :: "Grid \<Rightarrow> int \<Rightarrow> int \<Rightarrow> Cell option" where
  "cellAt grid r c =
     (if 0 \<le> r \<and> r < int (length grid) then
        (if 0 \<le> c \<and> c < int (length (grid ! nat r)) then Some (grid ! nat r ! nat c) else None)
      else None)"

definition directions :: "(int \<times> int) list" where
  "directions = [(-1, 0), (1, 0), (0, -1), (0, 1)]"

fun getNeighbors_loop :: "Grid \<Rightarrow> int \<Rightarrow> int \<Rightarrow> (int \<times> int) list \<Rightarrow> Position list \<Rightarrow> error + Position list" where
  "getNeighbors_loop grid r c [] neighbors = Inr neighbors"
| "getNeighbors_loop grid r c (dir # dirs) neighbors =
     (let newRow = r + fst dir; newCol = c + snd dir in
      if newRow \<ge> 0 \<and> newRow < int (length grid) \<and> newCol \<ge> 0 \<and> newCol < int (length (grid ! 0)) then
        (case cellAt grid newRow newCol of
           None \<Rightarrow> Inl TypeError
         | Some cell \<Rightarrow>
             if type cell \<noteq> Wall
             then getNeighbors_loop grid r c dirs (neighbors @ [\<lparr>row = newRow, col = newCol\<rparr>])
             else getNeighbors_loop grid r c dirs neighbors)
      else getNeighbors_loop grid r c dirs neighbors)"

definition getNeighbors :: "Grid \<Rightarrow> Position \<Rightarrow> error + Position list" where
  "getNeighbors grid position = getNeighbors_loop grid (row position) (col position) directions []"

subsection \<open>findStartAndEnd\<close>

fun findStartAndEnd_row :: "int \<Rightarrow> int \<Rightarrow> Cell list \<Rightarrow> Position option \<times> Position option \<Rightarrow> Position option \<times> Position option" where
  "findStartAndEnd_row r c [] se = se"
| "findStartAndEnd_row r c (cell # cells) se =
     findStartAndEnd_row r (c + 1) cells
       (if type cell = Start then (Some \<lparr>row = r, col = c\<rparr>, snd se)
        else if type cell = End then (fst se, Some \<lparr>row = r, col = c\<rparr>)
        else se)"

fun findStartAndEnd_rows :: "int \<Rightarrow> Cell list list \<Rightarrow> Position option \<times> Position option \<Rightarrow> Position option \<times> Position option" where
  "findStartAndEnd_rows r [] se = se"
| "findStartAndEnd_rows r (cells # rest) se =
     findStartAndEnd_rows (r + 1) rest (findStartAndEnd_row r 0 cells se)"

definition findStartAndEnd :: "Grid \<Rightarrow> Position option \<times> Position option" where
  "findStartAndEnd grid = findStartAndEnd_rows 0 grid (None, None)"

subsection \<open>Path reconstruction\<close>

text \<open>
  The \<open>while\<close> loop that walks the parent map back from the end. A missing parent makes
  the next evaluation of the loop condition read \<open>undefined.row\<close>; a cyclic parent map
  makes the loop run forever.
\<close>

partial_function (option) reconstruct ::
  "(Position \<rightharpoonup> Position) \<Rightarrow> Position \<Rightarrow> Position \<Rightarrow> Position list \<Rightarrow> (error + Position list) option" where
  "reconstruct parent start currentPos pth =
     (if currentPos \<noteq> start then
        (case parent currentPos of
           None \<Rightarrow> Some (Inl TypeError)
         | Some p \<Rightarrow> reconstruct parent start p (currentPos # pth))
      else Some (Inr (start # pth)))"

definition finish :: "Grid \<Rightarrow> Position list \<Rightarrow> (error + Position list) option \<Rightarrow> AlgorithmResult call" where
  "finish grid visitedPositions r =
     (case r of
        None \<Rightarrow> None
      | Some (Inl e) \<Rightarrow> Some (Inl e)
      | Some (Inr pth) \<Rightarrow> Some (Inr (grid, \<lparr>path = pth, visited = visitedPositions, success = True\<rparr>)))"

definition cells :: "Grid \<Rightarrow> Position set" where
  "cells grid = {p. 0 \<le> row p \<and> row p < int (length grid) \<and> 0 \<le> col p \<and> col p < int (length (grid ! 0))}"

subsection \<open>Breadth-first and depth-first search\<close>

text \<open>
  One round of the \<open>for (const neighbor of getNeighbors(grid, current))\<close> loop, which is
  the same text in \<open>bfs\<close> (lines 95-102) and \<open>dfs\<close> (lines 137-144): mark, record the
  parent, push.
\<close>

definition discover :: "Position \<Rightarrow> Position \<Rightarrow> Position list \<times> Position set \<times> (Position \<rightharpoonup> Position) \<Rightarrow> Position list \<times> Position set \<times> (Position \<rightharpoonup> Position)" where
  "discover current neighbor st =
     (case st of (frontier, vset, parent) \<Rightarrow>
        if neighbor \<notin> vset
        then (frontier @ [neighbor], insert neighbor vset, parent(neighbor \<mapsto> current))
        else (frontier, vset, parent))"

function bfs_loop :: "Grid \<Rightarrow> Position \<Rightarrow> Position \<Rightarrow> Position list \<Rightarrow> Position set \<Rightarrow> (Position \<rightharpoonup> Position) \<Rightarrow> Position list \<Rightarrow> AlgorithmResult call" where
  "bfs_loop grid start endp queue vset parent visitedPositions =
     (case queue of
        [] \<Rightarrow> Some (Inr (grid, \<lparr>path = [], visited = visitedPositions, success = False\<rparr>))
      | current # rest \<Rightarrow>
          if current = endp
          then finish grid (visitedPositions @ [current]) (reconstruct parent start endp [])
          else (case getNeighbors grid current of
                  Inl e \<Rightarrow> Some (Inl e)
                | Inr ns \<Rightarrow>
                    (case fold (discover current) ns (rest, vset, parent) of
                       (queue', vset', parent') \<Rightarrow>
                         bfs_loop grid start endp queue' vset' parent' (visitedPositions @ [current]))))"
  by pat_completeness auto

definition bfs :: "Grid \<Rightarrow> AlgorithmResult call" where
  "bfs grid =
     (case findStartAndEnd grid of
        (Some start, Some endp) \<Rightarrow> bfs_loop grid start endp [start] {start} Map.empty []
      | _ \<Rightarrow> Some (Inr (grid, \<lparr>path = [], visited = [], success = False\<rparr>)))"

text \<open>The stack of \<open>dfs\<close> is a list whose top is its last element (\<open>push\<close> and \<open>pop\<close> work there).\<close>

function dfs_loop :: "Grid \<Rightarrow> Position \<Rightarrow> Position \<Rightarrow> Position list \<Rightarrow> Position set \<Rightarrow> (Position \<rightharpoonup> Position) \<Rightarrow> Position list \<Rightarrow> AlgorithmResult call" where
  "dfs_loop grid start endp stack vset parent visitedPositions =
     (if stack = [] then Some (Inr (grid, \<lparr>path = [], visited = visitedPositions, success = False\<rparr>))
      else
        (let current = last stack; rest = butlast stack in
          if current = endp
          then finish grid (visitedPositions @ [current]) (reconstruct parent start endp [])
          else (case getNeighbors grid current of
                  Inl e \<Rightarrow> Some (Inl e)
                | Inr ns \<Rightarrow>
                    (case fold (discover current) ns (rest, vset, parent) of
                       (stack', vset', parent') \<Rightarrow>
                         dfs_loop grid start endp stack' vset' parent' (visitedPositions @ [current])))))"
  by pat_completeness auto

definition dfs :: "Grid \<Rightarrow> AlgorithmResult call" where
  "dfs grid =
     (case findStartAndEnd grid of
        (Some start, Some endp) \<Rightarrow> dfs_loop grid start endp [start] {start} Map.empty []
      | _ \<Rightarrow> Some (Inr (grid, \<lparr>path = [], visited = [], success = False\<rparr>)))"

subsection \<open>Dijkstra\<close>

text \<open>
  The nested \<open>for (row ...) for (col < grid[row].length)\<close> loops of \<open>dijkstra\<close> and
  \<open>aStar\<close> run over the positions of the grid in row-major order.
\<close>

definition allPositions :: "Grid \<Rightarrow> Position list" where
  "allPositions grid =
     concat (map (\<lambda>r. map (\<lambda>c. \<lparr>row = int r, col = int c\<rparr>) [0..<length (grid ! r)]) [0..<length grid])"

definition initScores :: "Grid \<Rightarrow> Position \<Rightarrow> enat option" where
  "initScores grid = fold (\<lambda>p m. m(p \<mapsto> \<infinity>)) (allPositions grid) Map.empty"

definition getMinDistance_step :: "Position set \<Rightarrow> (Position \<Rightarrow> enat option) \<Rightarrow> Position \<Rightarrow> enat \<times> Position option \<Rightarrow> enat \<times> Position option" where
  "getMinDistance_step vset distances p st =
     (case st of (minDist, minPos) \<Rightarrow>
        (case distances p of
           None \<Rightarrow> (minDist, minPos)
         | Some d \<Rightarrow> if p \<notin> vset \<and> d < minDist then (d, Some p) else (minDist, minPos)))"

definition getMinDistance :: "Grid \<Rightarrow> Position set \<Rightarrow> (Position \<Rightarrow> enat option) \<Rightarrow> Position option" where
  "getMinDistance grid vset distances =
     snd (fold (getMinDistance_step vset distances) (allPositions grid) (\<infinity>, None))"

definition relax :: "Position set \<Rightarrow> Position \<Rightarrow> Position \<Rightarrow> (Position \<Rightarrow> enat option) \<times> (Position \<rightharpoonup> Position) \<Rightarrow> (Position \<Rightarrow> enat option) \<times> (Position \<rightharpoonup> Position)" where
  "relax vset current neighbor st =
     (case st of (distances, parent) \<Rightarrow>
        if neighbor \<notin> vset then
          (let newDist = js_plus (distances current) 1 in
           if js_lt newDist (distances neighbor)
           then (distances(neighbor := newDist), parent(neighbor \<mapsto> current))
           else (distances, parent))
        else (distances, parent))"

function dijkstra_loop :: "Grid \<Rightarrow> Position \<Rightarrow> Position \<Rightarrow> (Position \<Rightarrow> enat option) \<Rightarrow> (Position \<rightharpoonup> Position) \<Rightarrow> Position set \<Rightarrow> Position list \<Rightarrow> AlgorithmResult call" where
  "dijkstra_loop grid start endp distances parent vset visitedPositions =
     (case getMinDistance grid vset distances of
        None \<Rightarrow> Some (Inr (grid, \<lparr>path = [], visited = visitedPositions, success = False\<rparr>))
      | Some current \<Rightarrow>
          if current = endp
          then finish grid (visitedPositions @ [current]) (reconstruct parent start endp [])
          else (case getNeighbors grid current of
                  Inl e \<Rightarrow> Some (Inl e)
                | Inr ns \<Rightarrow>
                    (case fold (relax (insert current vset) current) ns (distances, parent) of
                       (distances', parent') \<Rightarrow>
                         dijkstra_loop grid start endp distances' parent' (insert current vset)
                           (visitedPositions @ [current]))))"
  by pat_completeness auto

definition dijkstra :: "Grid \<Rightarrow> AlgorithmResult call" where
  "dijkstra grid =
     (case findStartAndEnd grid of
        (Some start, Some endp) \<Rightarrow>
          dijkstra_loop grid start endp ((initScores grid)(start \<mapsto> 0)) Map.empty {} []
      | _ \<Rightarrow> Some (Inr (grid, \<lparr>path = [], visited = [], success = False\<rparr>)))"

subsection \<open>A*\<close>

definition heuristic :: "Position \<Rightarrow> Position \<Rightarrow> nat" where
  "heuristic a b = nat \<bar>row a - row b\<bar> + nat \<bar>col a - col b\<bar>"

text \<open>
  \<open>openSet\<close> is a JavaScript \<open>Set\<close>, iterated in insertion order: a list without
  duplicates, \<open>add\<close> appending a new member and \<open>delete\<close> removing it. The scan for
  the lowest f-score starts from \<open>currentKey = ''\<close>, here \<open>None\<close>.
\<close>

definition lowestF_step :: "(Position \<Rightarrow> enat option) \<Rightarrow> Position \<Rightarrow> Position option \<times> enat \<Rightarrow> Position option \<times> enat" where
  "lowestF_step fScore key st =
     (case st of (currentKey, lowestFScore) \<Rightarrow>
        (case fScore key of
           None \<Rightarrow> (currentKey, lowestFScore)
         | Some f \<Rightarrow> if f < lowestFScore then (Some key, f) else (currentKey, lowestFScore)))"

definition lowestF :: "(Position \<Rightarrow> enat option) \<Rightarrow> Position list \<Rightarrow> Position option" where
  "lowestF fScore openSet = fst (fold (lowestF_step fScore) openSet (None, \<infinity>))"

type_synonym astar_maps =
  "Position list \<times> (Position \<Rightarrow> enat option) \<times> (Position \<Rightarrow> enat option) \<times> (Position \<rightharpoonup> Position)"

definition aStar_neighbor :: "Position set \<Rightarrow> Position \<Rightarrow> Position \<Rightarrow> Position \<Rightarrow> astar_maps \<Rightarrow> astar_maps" where
  "aStar_neighbor closedSet endp current neighbor st =
     (case st of (openSet, gScore, fScore, parent) \<Rightarrow>
        if neighbor \<in> closedSet then st
        else
          (let tentativeGScore = js_plus (gScore current) 1;
               updated = (\<lambda>os. (os, gScore(neighbor := tentativeGScore),
                                fScore(neighbor := js_plus tentativeGScore (enat (heuristic neighbor endp))),
                                parent(neighbor \<mapsto> current)))
           in if neighbor \<notin> set openSet then updated (openSet @ [neighbor])
              else if js_ge tentativeGScore (gScore neighbor) then st
              else updated openSet))"

text \<open>
  When no member of the open set has a finite f-score, \<open>currentKey\<close> stays \<open>''\<close>: the
  source then parses the position \<open>{row: 0, col: undefined}\<close>, deletes nothing from the
  open set, finds no neighbour and repeats the same round for ever. The model gives
  \<open>None\<close> there.
\<close>

function aStar_loop :: "Grid \<Rightarrow> Position \<Rightarrow> Position \<Rightarrow> Position list \<Rightarrow> Position set \<Rightarrow> (Position \<Rightarrow> enat option) \<Rightarrow> (Position \<Rightarrow> enat option) \<Rightarrow> (Position \<rightharpoonup> Position) \<Rightarrow> Position list \<Rightarrow> AlgorithmResult call" where
  "aStar_loop grid start endp openSet closedSet gScore fScore parent visitedPositions =
     (if openSet = [] then Some (Inr (grid, \<lparr>path = [], visited = visitedPositions, success = False\<rparr>))
      else
        (case lowestF fScore openSet of
           None \<Rightarrow> None
         | Some current \<Rightarrow>
             if current = endp
             then finish grid visitedPositions (reconstruct parent start endp [])
             else (case getNeighbors grid current of
                     Inl e \<Rightarrow> Some (Inl e)
                   | Inr ns \<Rightarrow>
                       (case fold (aStar_neighbor (insert current closedSet) endp current) ns
                               (removeAll current openSet, gScore, fScore, parent) of
                          (openSet', gScore', fScore', parent') \<Rightarrow>
                            aStar_loop grid start endp openSet' (insert current closedSet) gScore' fScore' parent'
                              (visitedPositions @ [current])))))"
  by pat_completeness auto

definition aStar_measure :: "Grid \<Rightarrow> Position list \<Rightarrow> Position set \<Rightarrow> nat" where
  "aStar_measure grid openSet closedSet = 2 * card (cells grid - closedSet - set openSet) + length openSet"

definition aStar :: "Grid \<Rightarrow> AlgorithmResult call" where
  "aStar grid =
     (case findStartAndEnd grid of
        (Some start, Some endp) \<Rightarrow>
          aStar_loop grid start endp [start] {}
            ((initScores grid)(start \<mapsto> 0))
            ((initScores grid)(start \<mapsto> enat (heuristic start endp)))
            Map.empty []
      | _ \<Rightarrow> Some (Inr (grid, \<lparr>path = [], visited = [], success = False\<rparr>)))"

subsection \<open>Greedy best-first\<close>

text \<open>
  \<open>greedyBestFirst\<close> has its own locator: it scans \<open>i < rows\<close>, \<open>j < cols\<close> with
  \<open>cols = grid[0].length\<close>, and tests \<open>start\<close> and \<open>end\<close> with two separate \<open>if\<close>s.
\<close>

fun greedy_scan :: "Grid \<Rightarrow> (nat \<times> nat) list \<Rightarrow> Position option \<times> Position option \<Rightarrow> error + Position option \<times> Position option" where
  "greedy_scan grid [] se = Inr se"
| "greedy_scan grid (ij # rest) se =
     (case cellAt grid (int (fst ij)) (int (snd ij)) of
        None \<Rightarrow> Inl TypeError
      | Some cell \<Rightarrow>
          greedy_scan grid rest
            (if type cell = Start then Some \<lparr>row = int (fst ij), col = int (snd ij)\<rparr> else fst se,
             if type cell = End then Some \<lparr>row = int (fst ij), col = int (snd ij)\<rparr> else snd se))"

definition greedy_pick :: "(Position \<Rightarrow> nat) \<Rightarrow> Position list \<Rightarrow> nat" where
  "greedy_pick h openSet =
     fold (\<lambda>i currentIndex. if h (openSet ! i) < h (openSet ! currentIndex) then i else currentIndex)
       [0..<length openSet] 0"

fun greedy_neighbors :: "Grid \<Rightarrow> nat \<Rightarrow> nat \<Rightarrow> Position set \<Rightarrow> Position \<Rightarrow> Position list \<Rightarrow> Position list \<times> (Position \<rightharpoonup> Position) \<Rightarrow> error + Position list \<times> (Position \<rightharpoonup> Position)" where
  "greedy_neighbors grid rows cols closedSet current [] st = Inr st"
| "greedy_neighbors grid rows cols closedSet current (neighbor # rest) st =
     (if row neighbor < 0 \<or> row neighbor \<ge> int rows \<or> col neighbor < 0 \<or> col neighbor \<ge> int cols
      then greedy_neighbors grid rows cols closedSet current rest st
      else
        (case cellAt grid (row neighbor) (col neighbor) of
           None \<Rightarrow> Inl TypeError
         | Some cell \<Rightarrow>
             if type cell = Wall \<or> neighbor \<in> closedSet
             then greedy_neighbors grid rows cols closedSet current rest st
             else if neighbor \<notin> set (fst st)
             then greedy_neighbors grid rows cols closedSet current rest
                    (fst st @ [neighbor], (snd st)(neighbor \<mapsto> current))
             else greedy_neighbors grid rows cols closedSet current rest st))"

definition candidates :: "Position \<Rightarrow> Position list" where
  "candidates current =
     [\<lparr>row = row current - 1, col = col current\<rparr>,
      \<lparr>row = row current + 1, col = col current\<rparr>,
      \<lparr>row = row current, col = col current - 1\<rparr>,
      \<lparr>row = row current, col = col current + 1\<rparr>]"

partial_function (option) greedy_loop :: "Grid \<Rightarrow> nat \<Rightarrow> nat \<Rightarrow> Position \<Rightarrow> Position \<Rightarrow> Position set \<Rightarrow> Position list \<Rightarrow> (Position \<rightharpoonup> Position) \<Rightarrow> Position list \<Rightarrow> (error + Grid \<times> AlgorithmResult) option" where
  "greedy_loop grid rows cols start endp closedSet openSet cameFrom visitedL =
     (if openSet = [] then Some (Inr (grid, \<lparr>path = [], visited = visitedL, success = False\<rparr>))
      else
        (let currentIndex = greedy_pick (\<lambda>pos. heuristic pos endp) openSet;
             current = openSet ! currentIndex
         in if current = endp
            then finish grid (visitedL @ [current]) (reconstruct cameFrom start current [])
            else (case greedy_neighbors grid rows cols closedSet current (candidates current)
                         (take currentIndex openSet @ drop (Suc currentIndex) openSet, cameFrom) of
                    Inl e \<Rightarrow> Some (Inl e)
                  | Inr st \<Rightarrow>
                      greedy_loop grid rows cols start endp closedSet (fst st) (snd st) (visitedL @ [current]))))"

definition greedyBestFirst :: "Grid \<Rightarrow> AlgorithmResult call" where
  "greedyBestFirst grid =
     (if grid = [] then Some (Inl TypeError)
      else
        (let rows = length grid; cols = length (grid ! 0) in
         case greedy_scan grid (List.product [0..<rows] [0..<cols]) (None, None) of
           Inl e \<Rightarrow> Some (Inl e)
         | Inr (Some start, Some endp) \<Rightarrow>
             greedy_loop grid rows cols start endp {start} [start] Map.empty []
         | Inr _ \<Rightarrow> Some (Inr (grid, \<lparr>path = [], visited = [], success = False\<rparr>))))"

text \<open>
  The loop of \<open>greedyBestFirst\<close> observed from outside: \<open>greedy_rounds n\<close> runs the same
  body for \<open>n\<close> rounds and gives the open set, the \<open>cameFrom\<close> map and the \<open>visited\<close>
  array as they are then, \<open>None\<close> when the loop is left before (empty open set, end
  popped, or an exception). \<open>greedyBestFirst_rounds\<close> does so from the start of the call.
\<close>

fun greedy_rounds :: "nat \<Rightarrow> Grid \<Rightarrow> nat \<Rightarrow> nat \<Rightarrow> Position \<Rightarrow> Position \<Rightarrow> Position set \<Rightarrow> Position list \<Rightarrow> (Position \<rightharpoonup> Position) \<Rightarrow> Position list \<Rightarrow> (Position list \<times> (Position \<rightharpoonup> Position) \<times> Position list) option" where
  "greedy_rounds 0 grid rows cols start endp closedSet openSet cameFrom visitedL = Some (openSet, cameFrom, visitedL)"
| "greedy_rounds (Suc n) grid rows cols start endp closedSet openSet cameFrom visitedL =
     (if openSet = [] then None
      else
        (let currentIndex = greedy_pick (\<lambda>pos. heuristic pos endp) openSet;
             current = openSet ! currentIndex
         in if current = endp
            then None
            else (case greedy_neighbors grid rows cols closedSet current (candidates current)
                         (take currentIndex openSet @ drop (Suc currentIndex) openSet, cameFrom) of
                    Inl e \<Rightarrow> None
                  | Inr st \<Rightarrow>
                      greedy_rounds n grid rows cols start endp closedSet (fst st) (snd st) (visitedL @ [current]))))"

definition greedyBestFirst_rounds :: "nat \<Rightarrow> Grid \<Rightarrow> (Position list \<times> (Position \<rightharpoonup> Position) \<times> Position list) option" where
  "greedyBestFirst_rounds n grid =
     (if grid = [] then None
      else
        (let rows = length grid; cols = length (grid ! 0) in
         case greedy_scan grid (List.product [0..<rows] [0..<cols]) (None, None) of
           Inl e \<Rightarrow> None
         | Inr (Some start, Some endp) \<Rightarrow>
             greedy_rounds n grid rows cols start endp {start} [start] Map.empty []
         | Inr _ \<Rightarrow> None))"

section \<open>Notions of the specification\<close>

text \<open>
  A well-formed grid (data model of the specification): at least one row, at least one
  column, all rows of the same length, at most one \<open>start\<close> cell and at most one \<open>end\<close>
  cell.
\<close>

definition kindCount :: "CellType \<Rightarrow> Grid \<Rightarrow> nat" where
  "kindCount k grid = length (filter (\<lambda>cell. type cell = k) (concat grid))"

definition wellFormed :: "Grid \<Rightarrow> bool" where
  "wellFormed grid \<longleftrightarrow>
     grid \<noteq> [] \<and> hd grid \<noteq> [] \<and> list_all (\<lambda>cells. length cells = length (hd grid)) grid \<and>
     kindCount Start grid \<le> 1 \<and> kindCount End grid \<le> 1"

text \<open>
  The locator as the specification words it: the cells in row-major order, each with
  its position, and the position of the last cell of a kind among them.
\<close>

definition scanOrder :: "Grid \<Rightarrow> (Position \<times> Cell) list" where
  "scanOrder grid =
     concat (map (\<lambda>rc. map (\<lambda>cc. (\<lparr>row = int (fst rc), col = int (fst cc)\<rparr>, snd cc)) (List.enumerate 0 (snd rc)))
               (List.enumerate 0 grid))"

definition lastOfKind :: "CellType \<Rightarrow> Grid \<Rightarrow> Position option" where
  "lastOfKind k grid =
     (case filter (\<lambda>pc. type (snd pc) = k) (scanOrder grid) of
        [] \<Rightarrow> None
      | x # xs \<Rightarrow> Some (fst (last (x # xs))))"

text \<open>
  Grids for concrete runs are built the way the page builds them (\<open>{type, row: i, col: j}\<close>
  for the cell in row \<open>i\<close>, column \<open>j\<close>).
\<close>

definition gridOf :: "CellType list list \<Rightarrow> Grid" where
  "gridOf kinds =
     map (\<lambda>rk. map (\<lambda>ck. \<lparr>type = snd ck, Cell.row = int (fst rk), Cell.col = int (fst ck)\<rparr>) (List.enumerate 0 (snd rk)))
       (List.enumerate 0 kinds)"

definition pos :: "int \<Rightarrow> int \<Rightarrow> Position" where
  "pos r c = \<lparr>row = r, col = c\<rparr>"

text \<open>
  The grid graph of the specification: a position is passable when it is a cell of the grid
  that is not a wall; two positions are adjacent when they differ by one step in one of
  the four cardinal directions. A walk is a non-empty sequence of passable positions,
  each adjacent to the next.
\<close>

definition passable :: "Grid \<Rightarrow> Position \<Rightarrow> bool" where
  "passable grid p = (case cellAt grid (row p) (col p) of Some cell \<Rightarrow> type cell \<noteq> Wall | None \<Rightarrow> False)"

definition adjacent :: "Position \<Rightarrow> Position \<Rightarrow> bool" where
  "adjacent p q \<longleftrightarrow> \<bar>row p - row q\<bar> + \<bar>col p - col q\<bar> = 1"

fun stepwise :: "Position list \<Rightarrow> bool" where
  "stepwise (p # q # rest) \<longleftrightarrow> adjacent p q \<and> stepwise (q # rest)"
| "stepwise _ \<longleftrightarrow> True"

definition walk :: "Grid \<Rightarrow> Position \<Rightarrow> Position \<Rightarrow> Position list \<Rightarrow> bool" where
  "walk grid a b ps \<longleftrightarrow> ps \<noteq> [] \<and> hd ps = a \<and> last ps = b \<and> stepwise ps \<and> list_all (passable grid) ps"

definition validWalk :: "Grid \<Rightarrow> Position \<Rightarrow> Position \<Rightarrow> Position list \<Rightarrow> bool" where
  "validWalk grid a b ps \<longleftrightarrow> walk grid a b ps \<and> distinct ps"

definition reachable :: "Grid \<Rightarrow> Position \<Rightarrow> Position \<Rightarrow> bool" where
  "reachable grid a b \<longleftrightarrow> (\<exists>ps. walk grid a b ps)"

definition shortest :: "Grid \<Rightarrow> Position \<Rightarrow> Position \<Rightarrow> Position list \<Rightarrow> bool" where
  "shortest grid a b ps \<longleftrightarrow> walk grid a b ps \<and> (\<forall>qs. walk grid a b qs \<longrightarrow> length ps \<le> length qs)"

definition noWalls :: "Grid \<Rightarrow> bool" where
  "noWalls grid \<longleftrightarrow> kindCount Wall grid = 0"

text \<open>The five strategies the engine exports.\<close>

definition strategies :: "(Grid \<Rightarrow> AlgorithmResult call) list" where
  "strategies = [bfs, dfs, dijkstra, aStar, greedyBestFirst]"

section \<open>Auxiliary notions for the proofs\<close>

definition lastSeen :: "CellType \<Rightarrow> (Position \<times> Cell) list \<Rightarrow> Position option \<Rightarrow> Position option" where
  "lastSeen k xs acc = fold (\<lambda>pc a. if type (snd pc) = k then Some (fst pc) else a) xs acc"

definition rowOrder :: "int \<Rightarrow> nat \<Rightarrow> Cell list \<Rightarrow> (Position \<times> Cell) list" where
  "rowOrder r n cs = map (\<lambda>cc. (\<lparr>row = r, col = int (fst cc)\<rparr>, snd cc)) (List.enumerate n cs)"

definition rowsOrder :: "nat \<Rightarrow> Cell list list \<Rightarrow> (Position \<times> Cell) list" where
  "rowsOrder m rws = concat (map (\<lambda>rc. rowOrder (int (fst rc)) 0 (snd rc)) (List.enumerate m rws))"

definition nbrs :: "Grid \<Rightarrow> Position \<Rightarrow> Position list" where
  "nbrs grid p = filter (passable grid) (candidates p)"

text \<open>
  The sequences that the parent map encodes: \<open>pchain parent start ps\<close> holds when \<open>ps\<close>
  begins with \<open>start\<close> and every later element has its predecessor as parent.
\<close>

inductive pchain :: "(Position \<rightharpoonup> Position) \<Rightarrow> Position \<Rightarrow> Position list \<Rightarrow> bool"
  for parent :: "Position \<rightharpoonup> Position" and start :: Position where
  base: "pchain parent start [start]"
| step: "pchain parent start ps \<Longrightarrow> x \<noteq> start \<Longrightarrow> parent x = Some (last ps) \<Longrightarrow> pchain parent start (ps @ [x])"

text \<open>
  Loop invariant of \<open>bfs\<close>; \<open>d\<close> is the depth at which a position was discovered.
\<close>

definition treePath :: "Grid \<Rightarrow> (Position \<rightharpoonup> Position) \<Rightarrow> Position \<Rightarrow> Position set \<Rightarrow> Position \<Rightarrow> Position list \<Rightarrow> bool" where
  "treePath grid parent start vset x ps \<longleftrightarrow>
     pchain parent start ps \<and> last ps = x \<and> set ps \<subseteq> vset \<and> stepwise ps \<and> list_all (passable grid) ps"

definition bfs_inv :: "Grid \<Rightarrow> Position \<Rightarrow> Position \<Rightarrow> (Position \<Rightarrow> nat) \<Rightarrow> Position list \<Rightarrow> Position set \<Rightarrow> (Position \<rightharpoonup> Position) \<Rightarrow> Position list \<Rightarrow> bool" where
  "bfs_inv grid start endp d queue vset parent vp \<longleftrightarrow>
     distinct (vp @ queue) \<and> set (vp @ queue) = vset \<and>
     vp @ queue \<noteq> [] \<and> hd (vp @ queue) = start \<and>
     endp \<notin> set vp \<and>
     (\<forall>x \<in> vset. \<exists>ps. treePath grid parent start vset x ps \<and> length ps = Suc (d x)) \<and>
     (\<forall>x \<in> set vp. \<forall>y. adjacent x y \<and> passable grid y \<longrightarrow> y \<in> vset \<and> d y \<le> Suc (d x)) \<and>
     sorted (map d (vp @ queue)) \<and>
     (queue \<noteq> [] \<longrightarrow> d (last (vp @ queue)) \<le> Suc (d (hd queue)))"

definition goodResult :: "Grid \<Rightarrow> Position \<Rightarrow> Position \<Rightarrow> AlgorithmResult \<Rightarrow> bool" where
  "goodResult grid start endp r \<longleftrightarrow>
     distinct (visited r) \<and> visited r \<noteq> [] \<and> hd (visited r) = start \<and>
     (success r \<longrightarrow> validWalk grid start endp (path r)) \<and>
     (\<not> success r \<longrightarrow> path r = [])"

definition optimalResult :: "Grid \<Rightarrow> Position \<Rightarrow> Position \<Rightarrow> AlgorithmResult \<Rightarrow> bool" where
  "optimalResult grid start endp r \<longleftrightarrow>
     (success r \<longrightarrow> shortest grid start endp (path r)) \<and>
     (\<not> success r \<longrightarrow> \<not> reachable grid start endp)"

definition dfs_inv :: "Grid \<Rightarrow> Position \<Rightarrow> Position \<Rightarrow> Position list \<Rightarrow> Position set \<Rightarrow> (Position \<rightharpoonup> Position) \<Rightarrow> Position list \<Rightarrow> bool" where
  "dfs_inv grid start endp stack vset parent vp \<longleftrightarrow>
     distinct (vp @ stack) \<and> set (vp @ stack) = vset \<and>
     ((vp = [] \<and> stack = [start]) \<or> (vp \<noteq> [] \<and> hd vp = start)) \<and>
     endp \<notin> set vp \<and>
     (\<forall>x \<in> vset. \<exists>ps. treePath grid parent start vset x ps)"

definition dijkstra_inv :: "Grid \<Rightarrow> Position \<Rightarrow> Position \<Rightarrow> (Position \<Rightarrow> enat option) \<Rightarrow> (Position \<rightharpoonup> Position) \<Rightarrow> Position set \<Rightarrow> Position list \<Rightarrow> bool" where
  "dijkstra_inv grid start endp D parent V vp \<longleftrightarrow>
     distinct vp \<and> set vp = V \<and>
     (vp \<noteq> [] \<longrightarrow> hd vp = start) \<and>
     (vp = [] \<longrightarrow> (\<forall>x. x \<noteq> start \<longrightarrow> D x = None \<or> D x = Some \<infinity>)) \<and>
     D start = Some 0 \<and>
     endp \<notin> V \<and>
     (\<forall>x. x \<in> set (allPositions grid) \<longleftrightarrow> D x \<noteq> None) \<and>
     (\<forall>x n. D x = Some (enat n) \<longrightarrow> (\<exists>ps. treePath grid parent start (insert x V) x ps \<and> length ps = Suc n)) \<and>
     (\<forall>x \<in> V. \<exists>n. D x = Some (enat n)) \<and>
     (\<forall>x \<in> V. \<forall>y a e. y \<notin> V \<and> D x = Some a \<and> D y = Some e \<longrightarrow> a \<le> e) \<and>
     (\<forall>x \<in> V. \<forall>y. adjacent x y \<and> passable grid y \<longrightarrow> (\<exists>a e. D x = Some a \<and> D y = Some e \<and> e \<le> a + 1))"

definition aStar_inv :: "Grid \<Rightarrow> Position \<Rightarrow> Position \<Rightarrow> Position list \<Rightarrow> Position set \<Rightarrow> (Position \<Rightarrow> enat option) \<Rightarrow> (Position \<Rightarrow> enat option) \<Rightarrow> (Position \<rightharpoonup> Position) \<Rightarrow> Position list \<Rightarrow> bool" where
  "aStar_inv grid start endp openSet closedSet gScore fScore parent vp \<longleftrightarrow>
     distinct vp \<and> set vp = closedSet \<and> distinct openSet \<and> set openSet \<inter> closedSet = {} \<and>
     ((vp = [] \<and> openSet = [start]) \<or> (vp \<noteq> [] \<and> hd vp = start)) \<and>
     endp \<notin> closedSet \<and>
     gScore start = Some 0 \<and> start \<in> set openSet \<union> closedSet \<and>
     (\<forall>x \<in> set openSet \<union> closedSet. \<exists>n. gScore x = Some (enat n) \<and>
         fScore x = Some (enat (n + heuristic x endp)) \<and>
         (\<exists>ps. treePath grid parent start (insert x closedSet) x ps \<and> length ps = Suc n)) \<and>
     (\<forall>x \<in> closedSet. \<forall>y \<in> set openSet. \<forall>a e. fScore x = Some a \<and> fScore y = Some e \<longrightarrow> a \<le> e) \<and>
     (\<forall>x \<in> closedSet. \<forall>y. adjacent x y \<and> passable grid y \<longrightarrow>
         y \<in> set openSet \<union> closedSet \<and> (\<exists>a e. gScore x = Some a \<and> gScore y = Some e \<and> e \<le> a + 1))"

definition aStar_upd :: "Position list \<Rightarrow> Position set \<Rightarrow> (Position \<Rightarrow> enat option) \<Rightarrow> Position \<Rightarrow> Position list \<Rightarrow> Position \<Rightarrow> bool" where
  "aStar_upd os C g cur ns x \<longleftrightarrow>
     x \<in> set ns \<and> x \<notin> C \<and> (x \<notin> set os \<or> \<not> js_ge (js_plus (g cur) 1) (g x))"

text \<open>
  The states of \<open>greedyBestFirst\<close> at the head of its loop. \<open>greedyB\<close>: only neighbours
  of the start have been expanded, none of which has another passable neighbour.
  \<open>greedyD\<close>: the end has just been reached through a neighbour of the start.
  \<open>greedyC\<close> and \<open>greedyF\<close>: an expanded position other than the start has put a
  passable neighbour into the open set; from such a state the loop does not return.
\<close>

definition greedyB :: "Grid \<Rightarrow> Position \<Rightarrow> Position \<Rightarrow> Position list \<Rightarrow> (Position \<rightharpoonup> Position) \<Rightarrow> Position list \<Rightarrow> bool" where
  "greedyB grid start endp os cf vis \<longleftrightarrow>
     vis \<noteq> [] \<and> hd vis = start \<and> distinct vis \<and> distinct os \<and> set os \<inter> set vis = {} \<and>
     (\<forall>x \<in> set os. cf x = Some start \<and> adjacent start x \<and> passable grid x \<and> x \<noteq> start) \<and>
     (\<forall>x \<in> set (tl vis). \<forall>y. adjacent x y \<and> passable grid y \<longrightarrow> y = start) \<and>
     endp \<notin> set vis"

definition greedyD :: "Grid \<Rightarrow> Position \<Rightarrow> Position \<Rightarrow> Position list \<Rightarrow> (Position \<rightharpoonup> Position) \<Rightarrow> Position list \<Rightarrow> bool" where
  "greedyD grid start endp os cf vis \<longleftrightarrow>
     endp \<in> set os \<and> vis \<noteq> [] \<and> hd vis = start \<and> distinct vis \<and> endp \<notin> set vis \<and>
     last vis \<noteq> start \<and> cf endp = Some (last vis) \<and> cf (last vis) = Some start \<and>
     adjacent (last vis) endp \<and> adjacent start (last vis) \<and> passable grid (last vis)"

definition greedyC :: "Grid \<Rightarrow> Position \<Rightarrow> Position \<Rightarrow> Position list \<Rightarrow> (Position \<rightharpoonup> Position) \<Rightarrow> Position list \<Rightarrow> bool" where
  "greedyC grid start endp os cf vis \<longleftrightarrow>
     distinct os \<and>
     (\<exists>x y. adjacent x y \<and> passable grid x \<and> passable grid y \<and> x \<noteq> start \<and> y \<noteq> start \<and>
            (x \<in> set os \<or> y \<in> set os)) \<and>
     vis \<noteq> [] \<and> last vis \<noteq> start \<and> last vis \<notin> set os \<and> passable grid (last vis) \<and>
     (\<forall>x \<in> set os. heuristic x endp = 1 \<longrightarrow> cf x = Some (last vis) \<and> adjacent (last vis) x) \<and>
     endp \<notin> set os \<and>
     (\<forall>x \<in> set os. passable grid x \<and> x \<noteq> start)"

definition greedyF :: "Position \<Rightarrow> Position \<Rightarrow> Position list \<Rightarrow> (Position \<rightharpoonup> Position) \<Rightarrow> bool" where
  "greedyF start endp os cf \<longleftrightarrow>
     endp \<in> set os \<and>
     (\<exists>l p. cf endp = Some l \<and> cf l = Some p \<and> cf p = Some l \<and> l \<noteq> start \<and> p \<noteq> start)"

text \<open>One round of the loop of \<open>greedyBestFirst\<close> on a well-formed grid: the position it
  expands, and the open set and the map \<open>cameFrom\<close> it leaves.\<close>

definition greedy_cur :: "Position \<Rightarrow> Position list \<Rightarrow> Position" where
  "greedy_cur endp os = os ! greedy_pick (\<lambda>pos. heuristic pos endp) os"

definition greedy_rest :: "Position \<Rightarrow> Position list \<Rightarrow> Position list" where
  "greedy_rest endp os =
     take (greedy_pick (\<lambda>pos. heuristic pos endp) os) os @
     drop (Suc (greedy_pick (\<lambda>pos. heuristic pos endp) os)) os"

definition greedy_open :: "Grid \<Rightarrow> Position \<Rightarrow> Position \<Rightarrow> Position list \<Rightarrow> Position list" where
  "greedy_open grid start endp os =
     greedy_rest endp os @
     filter (\<lambda>x. passable grid x \<and> x \<noteq> start \<and> x \<notin> set (greedy_rest endp os)) (candidates (greedy_cur endp os))"

definition greedy_cf :: "Grid \<Rightarrow> Position \<Rightarrow> Position \<Rightarrow> Position list \<Rightarrow> (Position \<rightharpoonup> Position) \<Rightarrow> (Position \<rightharpoonup> Position)" where
  "greedy_cf grid start endp os cf =
     (\<lambda>x. if x \<in> set (candidates (greedy_cur endp os)) \<and> passable grid x \<and> x \<noteq> start \<and>
              x \<notin> set (greedy_rest endp os)
          then Some (greedy_cur endp os) else cf x)"

definition greedy_phase :: "Grid \<Rightarrow> Position \<Rightarrow> Position \<Rightarrow> Position list \<Rightarrow> (Position \<rightharpoonup> Position) \<Rightarrow> Position list \<Rightarrow> bool" where
  "greedy_phase grid start endp os cf vis \<longleftrightarrow>
     greedyB grid start endp os cf vis \<or> greedyC grid start endp os cf vis \<or>
     greedyD grid start endp os cf vis \<or> greedyF start endp os cf"

definition greedy_pre :: "Grid \<Rightarrow> nat \<Rightarrow> nat \<Rightarrow> Position \<Rightarrow> Position \<Rightarrow> Position set \<Rightarrow> bool" where
  "greedy_pre grid rows cols start endp closedSet \<longleftrightarrow>
     wellFormed grid \<and> rows = length grid \<and> cols = length (grid ! 0) \<and> closedSet = {start} \<and>
     passable grid start \<and> passable grid endp \<and> start \<noteq> endp"

section \<open>Termination of the search loops\<close>

declare reconstruct.simps [code]

lemma finite_cells: "finite (cells grid)"
proof -
  have "cells grid \<subseteq> (\<lambda>(r, c). \<lparr>row = r, col = c\<rparr>) ` ({0..<int (length grid)} \<times> {0..<int (length (grid ! 0))})"
  proof
    fix p assume "p \<in> cells grid"
    then have "(row p, col p) \<in> {0..<int (length grid)} \<times> {0..<int (length (grid ! 0))}"
      by (simp add: cells_def)
    moreover have "p = (\<lambda>(r, c). \<lparr>row = r, col = c\<rparr>) (row p, col p)" by simp
    ultimately show "p \<in> (\<lambda>(r, c). \<lparr>row = r, col = c\<rparr>) ` ({0..<int (length grid)} \<times> {0..<int (length (grid ! 0))})"
      by (rule image_eqI[rotated])
  qed
  then show ?thesis by (rule finite_subset) simp
qed

lemma getNeighbors_loop_cells:
  "getNeighbors_loop grid r c ds acc = Inr ns \<Longrightarrow> set acc \<subseteq> cells grid \<Longrightarrow> set ns \<subseteq> cells grid"
proof (induction ds arbitrary: acc)
  case Nil
  then show ?case by simp
next
  case (Cons d ds)
  show ?case
  proof (cases "r + fst d \<ge> 0 \<and> r + fst d < int (length grid) \<and> c + snd d \<ge> 0 \<and> c + snd d < int (length (grid ! 0))")
    case False
    with Cons.prems have "getNeighbors_loop grid r c ds acc = Inr ns" by (auto simp: Let_def)
    with Cons show ?thesis by blast
  next
    case True
    then have incells: "\<lparr>row = r + fst d, col = c + snd d\<rparr> \<in> cells grid" by (simp add: cells_def)
    from Cons.prems(1) True obtain cell where cell: "cellAt grid (r + fst d) (c + snd d) = Some cell"
      by (cases "cellAt grid (r + fst d) (c + snd d)") (auto simp: Let_def)
    show ?thesis
    proof (cases "type cell \<noteq> Wall")
      case True
      with Cons.prems(1) \<open>r + fst d \<ge> 0 \<and> _\<close> cell
      have "getNeighbors_loop grid r c ds (acc @ [\<lparr>row = r + fst d, col = c + snd d\<rparr>]) = Inr ns"
        by (simp add: Let_def)
      moreover have "set (acc @ [\<lparr>row = r + fst d, col = c + snd d\<rparr>]) \<subseteq> cells grid"
        using Cons.prems(2) incells by simp
      ultimately show ?thesis by (rule Cons.IH)
    next
      case False
      with Cons.prems(1) \<open>r + fst d \<ge> 0 \<and> _\<close> cell
      have "getNeighbors_loop grid r c ds acc = Inr ns" by (simp add: Let_def)
      with Cons show ?thesis by blast
    qed
  qed
qed

lemma getNeighbors_cells: "getNeighbors grid p = Inr ns \<Longrightarrow> set ns \<subseteq> cells grid"
  unfolding getNeighbors_def by (erule getNeighbors_loop_cells) simp

lemma discover_simp:
  "discover current neighbor (frontier, vset, parent) =
     (if neighbor \<notin> vset
      then (frontier @ [neighbor], insert neighbor vset, parent(neighbor \<mapsto> current))
      else (frontier, vset, parent))"
  by (simp add: discover_def)

lemma fold_discover_measure:
  "set ns \<subseteq> cells grid \<Longrightarrow> fold (discover cur) ns (q, v, p) = (q', v', p') \<Longrightarrow>
   2 * card (cells grid - v') + length q' \<le> 2 * card (cells grid - v) + length q"
proof (induction ns arbitrary: q v p)
  case Nil
  then show ?case by simp
next
  case (Cons n ns)
  from Cons.prems(1) have sub: "set ns \<subseteq> cells grid" and n: "n \<in> cells grid" by simp_all
  show ?case
  proof (cases "n \<in> v")
    case True
    with Cons.prems have "fold (discover cur) ns (q, v, p) = (q', v', p')" by (simp add: discover_simp)
    from Cons.IH[OF sub this] show ?thesis .
  next
    case False
    with Cons.prems have "fold (discover cur) ns (q @ [n], insert n v, p(n \<mapsto> cur)) = (q', v', p')"
      by (simp add: discover_simp)
    from Cons.IH[OF sub this]
    have "2 * card (cells grid - v') + length q' \<le> 2 * card (cells grid - insert n v) + length (q @ [n])" .
    moreover have "n \<in> cells grid - v" using False n by simp
    then have "card (cells grid - insert n v) < card (cells grid - v)"
      by (metis Diff_insert card_Diff1_less finite_Diff finite_cells)
    ultimately show ?thesis by simp
  qed
qed

lemma discover_decreases:
  assumes "getNeighbors grid cur = Inr ns"
    and "(q', y) = fold (discover cur) ns (q, v, p)" and "(v', p') = y"
  shows "2 * card (cells grid - v') + length q' < Suc (2 * card (cells grid - v) + length q)"
proof -
  have "fold (discover cur) ns (q, v, p) = (q', v', p')" using assms(2,3) by simp
  from fold_discover_measure[OF getNeighbors_cells[OF assms(1)] this] show ?thesis by simp
qed

termination bfs_loop
  apply (relation "measure (\<lambda>(grid, start, endp, queue, vset, parent, vp). 2 * card (cells grid - vset) + length queue)")
   apply simp
  apply simp
  apply (erule (2) discover_decreases)
  done

termination dfs_loop
  apply (relation "measure (\<lambda>(grid, start, endp, stack, vset, parent, vp). 2 * card (cells grid - vset) + length stack)")
   apply simp
  apply simp
  apply (drule (2) discover_decreases)
  apply (subgoal_tac "0 < length stack")
   apply simp
  apply simp
  done

lemma getMinDistance_fold:
  "fold (getMinDistance_step vset distances) ps (m, mp) = (m', Some p) \<Longrightarrow>
   mp = Some p \<or> (p \<in> set ps \<and> p \<notin> vset)"
proof (induction ps arbitrary: m mp)
  case Nil
  then show ?case by simp
next
  case (Cons a ps)
  obtain m1 mp1 where st: "getMinDistance_step vset distances a (m, mp) = (m1, mp1)"
    by (cases "getMinDistance_step vset distances a (m, mp)")
  with Cons.prems have f: "fold (getMinDistance_step vset distances) ps (m1, mp1) = (m', Some p)" by simp
  from st have cases: "mp1 = mp \<or> (mp1 = Some a \<and> a \<notin> vset)"
    by (auto simp: getMinDistance_step_def split: option.splits if_splits)
  from Cons.IH[OF f] cases show ?case by auto
qed

lemma getMinDistance_Some:
  assumes "getMinDistance grid vset distances = Some p"
  shows "p \<in> set (allPositions grid) - vset"
proof -
  obtain m' where "fold (getMinDistance_step vset distances) (allPositions grid) (\<infinity>, None) = (m', Some p)"
    using assms unfolding getMinDistance_def
    by (cases "fold (getMinDistance_step vset distances) (allPositions grid) (\<infinity>, None)") simp
  from getMinDistance_fold[OF this] show ?thesis by simp
qed

termination dijkstra_loop
  apply (relation "measure (\<lambda>(grid, start, endp, distances, parent, vset, vp). card (set (allPositions grid) - vset))")
   apply simp
  apply simp
  apply (drule getMinDistance_Some)
  apply (rule psubset_card_mono)
   apply simp
  apply blast
  done

lemma lowestF_fold:
  "fold (lowestF_step fScore) os (ck, lf) = (Some p, lf') \<Longrightarrow> ck = Some p \<or> p \<in> set os"
proof (induction os arbitrary: ck lf)
  case Nil
  then show ?case by simp
next
  case (Cons a os)
  obtain ck1 lf1 where st: "lowestF_step fScore a (ck, lf) = (ck1, lf1)"
    by (cases "lowestF_step fScore a (ck, lf)")
  with Cons.prems have f: "fold (lowestF_step fScore) os (ck1, lf1) = (Some p, lf')" by simp
  from st have "ck1 = ck \<or> ck1 = Some a"
    by (auto simp: lowestF_step_def split: option.splits if_splits)
  with Cons.IH[OF f] show ?case by auto
qed

lemma lowestF_mem: "lowestF fScore os = Some p \<Longrightarrow> p \<in> set os"
proof -
  assume a: "lowestF fScore os = Some p"
  then obtain lf' where "fold (lowestF_step fScore) os (None, \<infinity>) = (Some p, lf')"
    unfolding lowestF_def by (cases "fold (lowestF_step fScore) os (None, \<infinity>)") simp
  from lowestF_fold[OF this] show ?thesis by simp
qed

lemma aStar_neighbor_simp:
  "aStar_neighbor closedSet endp current neighbor (openSet, gScore, fScore, parent) =
     (if neighbor \<in> closedSet then (openSet, gScore, fScore, parent)
      else if neighbor \<notin> set openSet then
        (openSet @ [neighbor], gScore(neighbor := js_plus (gScore current) 1),
         fScore(neighbor := js_plus (js_plus (gScore current) 1) (enat (heuristic neighbor endp))),
         parent(neighbor \<mapsto> current))
      else if js_ge (js_plus (gScore current) 1) (gScore neighbor) then (openSet, gScore, fScore, parent)
      else (openSet, gScore(neighbor := js_plus (gScore current) 1),
         fScore(neighbor := js_plus (js_plus (gScore current) 1) (enat (heuristic neighbor endp))),
         parent(neighbor \<mapsto> current)))"
  by (simp add: aStar_neighbor_def Let_def)

lemma fold_aStar_neighbor_measure:
  "set ns \<subseteq> cells grid \<Longrightarrow>
   fold (aStar_neighbor closedSet endp cur) ns (os, g, f, p) = (os', g', f', p') \<Longrightarrow>
   aStar_measure grid os' closedSet \<le> aStar_measure grid os closedSet"
proof (induction ns arbitrary: os g f p)
  case Nil
  then show ?case by simp
next
  case (Cons n ns)
  from Cons.prems(1) have sub: "set ns \<subseteq> cells grid" and n: "n \<in> cells grid" by simp_all
  obtain os1 g1 f1 p1 where st: "aStar_neighbor closedSet endp cur n (os, g, f, p) = (os1, g1, f1, p1)"
    by (cases "aStar_neighbor closedSet endp cur n (os, g, f, p)") auto
  with Cons.prems(2) have "fold (aStar_neighbor closedSet endp cur) ns (os1, g1, f1, p1) = (os', g', f', p')"
    by simp
  from Cons.IH[OF sub this] have le: "aStar_measure grid os' closedSet \<le> aStar_measure grid os1 closedSet" .
  show ?case
  proof (cases "n \<notin> closedSet \<and> n \<notin> set os")
    case True
    with st have os1: "os1 = os @ [n]" by (simp add: aStar_neighbor_simp)
    have "n \<in> cells grid - closedSet - set os" using True n by simp
    moreover have "cells grid - closedSet - set os1 = (cells grid - closedSet - set os) - {n}"
      unfolding os1 by auto
    moreover have "finite (cells grid - closedSet - set os)" using finite_cells by simp
    ultimately have "card (cells grid - closedSet - set os1) < card (cells grid - closedSet - set os)"
      by (metis card_Diff1_less)
    then have "aStar_measure grid os1 closedSet \<le> aStar_measure grid os closedSet"
      unfolding aStar_measure_def os1 by simp
    with le show ?thesis by simp
  next
    case False
    with st have "os1 = os" by (auto simp: aStar_neighbor_simp split: if_splits)
    with le show ?thesis by simp
  qed
qed

lemma aStar_decreases:
  assumes "lowestF fScore openSet = Some cur" and "getNeighbors grid cur = Inr ns"
    and "fold (aStar_neighbor (insert cur closedSet) endp cur) ns (removeAll cur openSet, g, f, p) = (os', g', f', p')"
  shows "aStar_measure grid os' (insert cur closedSet) < aStar_measure grid openSet closedSet"
proof -
  have mem: "cur \<in> set openSet" using assms(1) by (rule lowestF_mem)
  have "aStar_measure grid os' (insert cur closedSet) \<le> aStar_measure grid (removeAll cur openSet) (insert cur closedSet)"
    using fold_aStar_neighbor_measure[OF getNeighbors_cells[OF assms(2)] assms(3)] .
  moreover have "cells grid - insert cur closedSet - set (removeAll cur openSet) = cells grid - closedSet - set openSet"
    using mem by auto
  moreover have "length (removeAll cur openSet) < length openSet"
    using mem by (simp add: length_removeAll_less)
  ultimately show ?thesis unfolding aStar_measure_def by simp
qed

lemma aStar_decreases_split:
  assumes "lowestF fScore openSet = Some cur" and "getNeighbors grid cur = Inr ns"
    and "(os', y) = fold (aStar_neighbor (insert cur closedSet) endp cur) ns (removeAll cur openSet, g, f, p)"
    and "(g', ya) = y" and "(f', p') = ya"
  shows "aStar_measure grid os' (insert cur closedSet) < aStar_measure grid openSet closedSet"
proof -
  have "fold (aStar_neighbor (insert cur closedSet) endp cur) ns (removeAll cur openSet, g, f, p) = (os', g', f', p')"
    using assms(3,4,5) by simp
  from aStar_decreases[OF assms(1,2) this] show ?thesis .
qed

termination aStar_loop
  apply (relation "measure (\<lambda>(grid, start, endp, openSet, closedSet, gScore, fScore, parent, vp). aStar_measure grid openSet closedSet)")
   apply simp
  apply simp
  apply (rule aStar_decreases_split; assumption)
  done

declare greedy_loop.simps [code]

declare bfs_loop.simps [simp del]
declare dfs_loop.simps [simp del]
declare dijkstra_loop.simps [simp del]
declare aStar_loop.simps [simp del]

section \<open>The start/end locator\<close>


lemma lastSeen_simps [simp]:
  "lastSeen k [] acc = acc"
  "lastSeen k (pc # xs) acc = lastSeen k xs (if type (snd pc) = k then Some (fst pc) else acc)"
  "lastSeen k (xs @ ys) acc = lastSeen k ys (lastSeen k xs acc)"
  by (simp_all add: lastSeen_def)

lemma lastSeen_filter:
  "lastSeen k xs acc =
     (case filter (\<lambda>pc. type (snd pc) = k) xs of [] \<Rightarrow> acc | y # ys \<Rightarrow> Some (fst (last (y # ys))))"
proof (induction xs arbitrary: acc)
  case Nil
  then show ?case by simp
next
  case (Cons a xs)
  show ?case
    by (simp add: Cons.IH split: list.splits)
qed

lemma findStartAndEnd_row_lastSeen:
  "findStartAndEnd_row r (int n) cs se =
     (lastSeen Start (rowOrder r n cs) (fst se), lastSeen End (rowOrder r n cs) (snd se))"
proof (induction cs arbitrary: n se)
  case Nil
  then show ?case by (simp add: rowOrder_def)
next
  case (Cons c cs)
  have "int n + 1 = int (Suc n)" by simp
  then have step: "\<And>se'. findStartAndEnd_row r (int n + 1) cs se' =
     (lastSeen Start (rowOrder r (Suc n) cs) (fst se'), lastSeen End (rowOrder r (Suc n) cs) (snd se'))"
    using Cons.IH[of "Suc n"] by metis
  show ?case
    by (simp add: step rowOrder_def)
qed

lemma findStartAndEnd_rows_lastSeen:
  "findStartAndEnd_rows (int m) rws se =
     (lastSeen Start (rowsOrder m rws) (fst se), lastSeen End (rowsOrder m rws) (snd se))"
proof (induction rws arbitrary: m se)
  case Nil
  then show ?case by (simp add: rowsOrder_def)
next
  case (Cons cs rws)
  have "int m + 1 = int (Suc m)" by simp
  then have step: "\<And>se'. findStartAndEnd_rows (int m + 1) rws se' =
     (lastSeen Start (rowsOrder (Suc m) rws) (fst se'), lastSeen End (rowsOrder (Suc m) rws) (snd se'))"
    using Cons.IH[of "Suc m"] by metis
  have row0: "findStartAndEnd_row (int m) 0 cs se =
     (lastSeen Start (rowOrder (int m) 0 cs) (fst se), lastSeen End (rowOrder (int m) 0 cs) (snd se))"
    using findStartAndEnd_row_lastSeen[of "int m" 0 cs se] by simp
  show ?case
    by (simp add: step row0 rowsOrder_def)
qed

lemma rowsOrder_scanOrder: "rowsOrder 0 grid = scanOrder grid"
  by (simp add: rowsOrder_def scanOrder_def rowOrder_def)

lemma findStartAndEnd_lastOfKind:
  "findStartAndEnd grid = (lastOfKind Start grid, lastOfKind End grid)"
proof -
  have "findStartAndEnd grid = findStartAndEnd_rows (int 0) grid (None, None)"
    by (simp add: findStartAndEnd_def)
  also have "\<dots> = (lastSeen Start (scanOrder grid) None, lastSeen End (scanOrder grid) None)"
    by (simp only: findStartAndEnd_rows_lastSeen rowsOrder_scanOrder fst_conv snd_conv)
  finally show ?thesis by (simp add: lastSeen_filter lastOfKind_def)
qed


lemma enumerate_nth: "List.enumerate 0 xs = map (\<lambda>i. (i, xs ! i)) [0..<length xs]"
  by (rule nth_equalityI) (simp_all add: nth_enumerate_eq)

lemma scanOrder_alt:
  "scanOrder grid =
     concat (map (\<lambda>i. map (\<lambda>j. (\<lparr>row = int i, col = int j\<rparr>, grid ! i ! j)) [0..<length (grid ! i)])
               [0..<length grid])"
  by (simp add: scanOrder_def enumerate_nth comp_def)

lemma in_concat_map_upt: "x \<in> set (concat (map f [0..<n])) \<longleftrightarrow> (\<exists>i<n. x \<in> set (f i))"
  by (induction n) (auto simp: less_Suc_eq)

lemma in_map_upt: "y \<in> set (map g [0..<m]) \<longleftrightarrow> (\<exists>j<m. y = g j)"
  by (induction m) (auto simp: less_Suc_eq)

lemma scanOrder_mem_ex:
  "(p, cell) \<in> set (scanOrder grid) \<longleftrightarrow>
   (\<exists>i<length grid. \<exists>j<length (grid ! i). p = \<lparr>row = int i, col = int j\<rparr> \<and> cell = grid ! i ! j)"
  unfolding scanOrder_alt in_concat_map_upt in_map_upt prod.inject ..

lemma scanOrder_mem:
  "(p, cell) \<in> set (scanOrder grid) \<longleftrightarrow> cellAt grid (row p) (col p) = Some cell"
proof
  assume "(p, cell) \<in> set (scanOrder grid)"
  then obtain i j where "i < length grid" "j < length (grid ! i)"
    "p = \<lparr>row = int i, col = int j\<rparr>" "cell = grid ! i ! j"
    unfolding scanOrder_mem_ex by blast
  then show "cellAt grid (row p) (col p) = Some cell" by (simp add: cellAt_def)
next
  assume a: "cellAt grid (row p) (col p) = Some cell"
  then have r: "0 \<le> row p" "row p < int (length grid)"
    by (simp_all add: cellAt_def split: if_splits)
  with a have c: "0 \<le> col p" "col p < int (length (grid ! nat (row p)))" "cell = grid ! nat (row p) ! nat (col p)"
    by (simp_all add: cellAt_def split: if_splits)
  have "p = \<lparr>row = int (nat (row p)), col = int (nat (col p))\<rparr>" using r c by simp
  moreover have "nat (row p) < length grid" "nat (col p) < length (grid ! nat (row p))" using r c by simp_all
  ultimately show "(p, cell) \<in> set (scanOrder grid)"
    unfolding scanOrder_mem_ex using c(3) by blast
qed

lemma map_snd_scanOrder: "map snd (scanOrder grid) = concat grid"
proof -
  have "map snd (scanOrder grid) = concat (map (\<lambda>i. map (\<lambda>j. grid ! i ! j) [0..<length (grid ! i)]) [0..<length grid])"
    by (simp add: scanOrder_alt map_concat comp_def)
  also have "\<dots> = concat (map (\<lambda>i. grid ! i) [0..<length grid])"
    by (simp add: map_nth)
  also have "\<dots> = concat grid" by (simp add: map_nth)
  finally show ?thesis .
qed

lemma kindCount_scanOrder:
  "kindCount k grid = length (filter (\<lambda>pc. type (snd pc) = k) (scanOrder grid))"
proof -
  have "filter (\<lambda>cell. type cell = k) (map snd (scanOrder grid)) =
        map snd (filter (\<lambda>pc. type (snd pc) = k) (scanOrder grid))"
    by (simp add: filter_map comp_def)
  then have "length (filter (\<lambda>cell. type cell = k) (map snd (scanOrder grid))) =
        length (filter (\<lambda>pc. type (snd pc) = k) (scanOrder grid))"
    by (simp only: length_map)
  then show ?thesis
    unfolding kindCount_def map_snd_scanOrder .
qed

lemma lastOfKind_None_iff: "lastOfKind k grid = None \<longleftrightarrow> kindCount k grid = 0"
  by (simp add: lastOfKind_def kindCount_scanOrder split: list.splits)

lemma lastOfKind_Some:
  assumes "lastOfKind k grid = Some p"
  shows "\<exists>cell. cellAt grid (row p) (col p) = Some cell \<and> type cell = k"
proof -
  let ?f = "filter (\<lambda>pc. type (snd pc) = k) (scanOrder grid)"
  from assms have ne: "?f \<noteq> []" and p: "p = fst (last ?f)"
    by (auto simp: lastOfKind_def split: list.splits)
  from ne have "last ?f \<in> set ?f" by (rule last_in_set)
  then have "last ?f \<in> set (scanOrder grid)" "type (snd (last ?f)) = k" by auto
  then have "(p, snd (last ?f)) \<in> set (scanOrder grid)" using p by simp
  then show ?thesis using \<open>type (snd (last ?f)) = k\<close> scanOrder_mem by blast
qed

lemma lastOfKind_unique:
  assumes "kindCount k grid \<le> 1" and "cellAt grid (row p) (col p) = Some cell" and "type cell = k"
  shows "lastOfKind k grid = Some p"
proof -
  let ?f = "filter (\<lambda>pc. type (snd pc) = k) (scanOrder grid)"
  have "(p, cell) \<in> set ?f" using assms(2,3) scanOrder_mem by simp
  moreover have "length ?f \<le> 1" using assms(1) by (simp add: kindCount_scanOrder)
  ultimately have "?f = [(p, cell)]"
    by (cases ?f) (auto simp del: filter_eq_Cons_iff)
  then show ?thesis by (simp add: lastOfKind_def)
qed

lemma greedy_scan_lastSeen:
  "\<forall>ij \<in> set ijs. fst ij < length grid \<and> snd ij < length (grid ! fst ij) \<Longrightarrow>
   greedy_scan grid ijs se =
     Inr (lastSeen Start (map (\<lambda>ij. (\<lparr>row = int (fst ij), col = int (snd ij)\<rparr>, grid ! fst ij ! snd ij)) ijs) (fst se),
          lastSeen End (map (\<lambda>ij. (\<lparr>row = int (fst ij), col = int (snd ij)\<rparr>, grid ! fst ij ! snd ij)) ijs) (snd se))"
proof (induction ijs arbitrary: se)
  case Nil
  then show ?case by simp
next
  case (Cons ij ijs)
  then have c: "cellAt grid (int (fst ij)) (int (snd ij)) = Some (grid ! fst ij ! snd ij)"
    by (simp add: cellAt_def)
  from Cons.prems have "\<forall>ij \<in> set ijs. fst ij < length grid \<and> snd ij < length (grid ! fst ij)" by simp
  note IH = Cons.IH[OF this]
  show ?case by (simp add: c IH)
qed

lemma wellFormed_rect:
  assumes "wellFormed grid" and "i < length grid"
  shows "length (grid ! i) = length (grid ! 0)"
proof -
  from assms(1) have ne: "grid \<noteq> []" and all: "\<forall>cs \<in> set grid. length cs = length (hd grid)"
    unfolding wellFormed_def list_all_iff by blast+
  from ne have "hd grid = grid ! 0" by (rule hd_conv_nth)
  moreover have "grid ! i \<in> set grid" using assms(2) by (rule nth_mem)
  ultimately show ?thesis using all by metis
qed

lemma product_scanOrder:
  assumes "wellFormed grid"
  shows "map (\<lambda>ij. (\<lparr>row = int (fst ij), col = int (snd ij)\<rparr>, grid ! fst ij ! snd ij))
           (List.product [0..<length grid] [0..<length (grid ! 0)]) = scanOrder grid"
proof -
  have "map (\<lambda>i. map (\<lambda>j. (\<lparr>row = int i, col = int j\<rparr>, grid ! i ! j)) [0..<length (grid ! 0)]) [0..<length grid]
      = map (\<lambda>i. map (\<lambda>j. (\<lparr>row = int i, col = int j\<rparr>, grid ! i ! j)) [0..<length (grid ! i)]) [0..<length grid]"
    using wellFormed_rect[OF assms] by simp
  moreover have "map (\<lambda>ij. (\<lparr>row = int (fst ij), col = int (snd ij)\<rparr>, grid ! fst ij ! snd ij))
           (List.product [0..<length grid] [0..<length (grid ! 0)]) =
        concat (map (\<lambda>i. map (\<lambda>j. (\<lparr>row = int i, col = int j\<rparr>, grid ! i ! j)) [0..<length (grid ! 0)]) [0..<length grid])"
    by (simp add: product_concat_map map_concat comp_def)
  ultimately show ?thesis
    by (simp only: scanOrder_alt)
qed

lemma greedy_scan_lastOfKind:
  assumes "wellFormed grid"
  shows "greedy_scan grid (List.product [0..<length grid] [0..<length (grid ! 0)]) (None, None) =
         Inr (lastOfKind Start grid, lastOfKind End grid)"
proof -
  have "\<forall>ij \<in> set (List.product [0..<length grid] [0..<length (grid ! 0)]).
          fst ij < length grid \<and> snd ij < length (grid ! fst ij)"
    using wellFormed_rect[OF assms] by auto
  from greedy_scan_lastSeen[OF this, of "(None, None)"]
  show ?thesis
    by (simp add: product_scanOrder[OF assms] lastSeen_filter lastOfKind_def)
qed

section \<open>Locator, missing markers, and the trace of A*\<close>


lemma wellFormed_nonempty: "wellFormed grid \<Longrightarrow> grid \<noteq> []"
  unfolding wellFormed_def by blast

lemma greedyBestFirst_wellFormed:
  assumes "wellFormed grid"
  shows "greedyBestFirst grid =
     (case (lastOfKind Start grid, lastOfKind End grid) of
        (Some start, Some endp) \<Rightarrow>
          greedy_loop grid (length grid) (length (grid ! 0)) start endp {start} [start] Map.empty []
      | _ \<Rightarrow> Some (Inr (grid, \<lparr>path = [], visited = [], success = False\<rparr>)))"
  unfolding greedyBestFirst_def Let_def greedy_scan_lastOfKind[OF assms]
  using wellFormed_nonempty[OF assms] by (simp split: option.splits)

text \<open>
  C7. The locator scans the grid once in row-major order and returns the position of the
  last \<open>start\<close> cell and of the last \<open>end\<close> cell it meets, \<open>None\<close> for a kind that does
  not occur: \<open>findStartAndEnd\<close> on every grid, and the inline scan of \<open>greedyBestFirst\<close>
  on every well-formed grid.
\<close>

theorem locator_last_wins:
  "findStartAndEnd grid = (lastOfKind Start grid, lastOfKind End grid) \<and>
   (wellFormed grid \<longrightarrow>
      greedy_scan grid (List.product [0..<length grid] [0..<length (grid ! 0)]) (None, None) =
        Inr (lastOfKind Start grid, lastOfKind End grid))"
  using findStartAndEnd_lastOfKind greedy_scan_lastOfKind by blast

theorem locator_last_wins_witness:
  "wellFormed (gridOf [[Empty, Start], [End, Wall]]) \<and>
   findStartAndEnd (gridOf [[Empty, Start], [End, Wall]]) = (Some (pos 0 1), Some (pos 1 0)) \<and>
   greedy_scan (gridOf [[Empty, Start], [End, Wall]]) (List.product [0..<2] [0..<2]) (None, None) =
     Inr (Some (pos 0 1), Some (pos 1 0)) \<and>
   lastOfKind Start (gridOf [[Empty, Start], [End, Wall]]) = Some (pos 0 1) \<and>
   lastOfKind End (gridOf [[Empty, Start], [End, Wall]]) = Some (pos 1 0)"
proof -
  have wf: "wellFormed (gridOf [[Empty, Start], [End, Wall]])" by code_simp
  have l: "length (gridOf [[Empty, Start], [End, Wall]]) = 2"
    "length (gridOf [[Empty, Start], [End, Wall]] ! 0) = 2" by code_simp+
  have s: "lastOfKind Start (gridOf [[Empty, Start], [End, Wall]]) = Some (pos 0 1)"
    and e: "lastOfKind End (gridOf [[Empty, Start], [End, Wall]]) = Some (pos 1 0)" by code_simp+
  from locator_last_wins[of "gridOf [[Empty, Start], [End, Wall]]"] wf
  show ?thesis unfolding l s e by simp
qed

lemma locator_duplicates_example:
  "findStartAndEnd (gridOf [[Start, End], [End, Start]]) = (Some (pos 1 1), Some (pos 1 0))"
  by code_simp

lemma missing_marker_result:
  assumes "wellFormed grid" and "kindCount Start grid = 0 \<or> kindCount End grid = 0"
  shows "bfs grid = Some (Inr (grid, \<lparr>path = [], visited = [], success = False\<rparr>)) \<and>
         dfs grid = Some (Inr (grid, \<lparr>path = [], visited = [], success = False\<rparr>)) \<and>
         dijkstra grid = Some (Inr (grid, \<lparr>path = [], visited = [], success = False\<rparr>)) \<and>
         aStar grid = Some (Inr (grid, \<lparr>path = [], visited = [], success = False\<rparr>)) \<and>
         greedyBestFirst grid = Some (Inr (grid, \<lparr>path = [], visited = [], success = False\<rparr>))"
proof -
  from assms(2) have "lastOfKind Start grid = None \<or> lastOfKind End grid = None"
    by (simp add: lastOfKind_None_iff)
  then show ?thesis
    unfolding bfs_def dfs_def dijkstra_def aStar_def greedyBestFirst_wellFormed[OF assms(1)]
      findStartAndEnd_lastOfKind
    by (auto split: option.splits)
qed

text \<open>
  C6. On a well-formed grid without a \<open>start\<close> cell or without an \<open>end\<close> cell, each of the
  five strategies returns exactly \<open>{ path: [], visited: [], success: false }\<close>.
\<close>

theorem missing_marker_empty_result:
  assumes "wellFormed grid" and "kindCount Start grid = 0 \<or> kindCount End grid = 0"
  shows "bfs grid = Some (Inr (grid, \<lparr>path = [], visited = [], success = False\<rparr>)) \<and>
         dfs grid = Some (Inr (grid, \<lparr>path = [], visited = [], success = False\<rparr>)) \<and>
         dijkstra grid = Some (Inr (grid, \<lparr>path = [], visited = [], success = False\<rparr>)) \<and>
         aStar grid = Some (Inr (grid, \<lparr>path = [], visited = [], success = False\<rparr>)) \<and>
         greedyBestFirst grid = Some (Inr (grid, \<lparr>path = [], visited = [], success = False\<rparr>))"
  using assms by (rule missing_marker_result)

theorem missing_marker_empty_result_witness:
  "wellFormed (gridOf [[Empty, Wall], [End, Empty]]) \<and>
   (kindCount Start (gridOf [[Empty, Wall], [End, Empty]]) = 0 \<or>
    kindCount End (gridOf [[Empty, Wall], [End, Empty]]) = 0) \<and>
   bfs (gridOf [[Empty, Wall], [End, Empty]]) =
     Some (Inr (gridOf [[Empty, Wall], [End, Empty]], \<lparr>path = [], visited = [], success = False\<rparr>)) \<and>
   greedyBestFirst (gridOf [[Empty, Wall], [End, Empty]]) =
     Some (Inr (gridOf [[Empty, Wall], [End, Empty]], \<lparr>path = [], visited = [], success = False\<rparr>))"
proof -
  have wf: "wellFormed (gridOf [[Empty, Wall], [End, Empty]])" by code_simp
  have k: "kindCount Start (gridOf [[Empty, Wall], [End, Empty]]) = 0 \<or>
           kindCount End (gridOf [[Empty, Wall], [End, Empty]]) = 0" by code_simp
  from missing_marker_empty_result[OF wf k] wf k show ?thesis by blast
qed

text \<open>
  C3. \<open>aStar\<close> tests the position with the lowest f-score against the end before it
  records it: on the grid \<open>[[start, end]]\<close> the search succeeds and the end position
  \<open>(0, 1)\<close> is absent from the returned \<open>visited\<close>. (\<open>bfs\<close>, \<open>dfs\<close>, \<open>dijkstra\<close> and
  \<open>greedyBestFirst\<close> record the position first, as the run of \<open>bfs\<close> shows.)
\<close>

theorem aStar_omits_end_from_visited:
  "aStar (gridOf [[Start, End]]) =
     Some (Inr (gridOf [[Start, End]], \<lparr>path = [pos 0 0, pos 0 1], visited = [pos 0 0], success = True\<rparr>))"
  by code_simp

lemma bfs_records_end_example:
  "bfs (gridOf [[Start, End]]) =
     Some (Inr (gridOf [[Start, End]], \<lparr>path = [pos 0 0, pos 0 1], visited = [pos 0 0, pos 0 1], success = True\<rparr>))"
  by code_simp

section \<open>The grid graph\<close>

lemma cellAt_Some_iff:
  "cellAt grid r c = Some cell \<longleftrightarrow>
   0 \<le> r \<and> r < int (length grid) \<and> 0 \<le> c \<and> c < int (length (grid ! nat r)) \<and> cell = grid ! nat r ! nat c"
  unfolding cellAt_def by (cases "0 \<le> r \<and> r < int (length grid)"; cases "0 \<le> c \<and> c < int (length (grid ! nat r))") auto

lemma cellAt_None_iff:
  "cellAt grid r c = None \<longleftrightarrow>
   \<not> (0 \<le> r \<and> r < int (length grid) \<and> 0 \<le> c \<and> c < int (length (grid ! nat r)))"
  unfolding cellAt_def by (cases "0 \<le> r \<and> r < int (length grid)"; cases "0 \<le> c \<and> c < int (length (grid ! nat r))") auto

lemma wellFormed_cellAt_None:
  assumes "wellFormed grid"
  shows "cellAt grid r c = None \<longleftrightarrow> \<lparr>row = r, col = c\<rparr> \<notin> cells grid"
proof (cases "0 \<le> r \<and> r < int (length grid)")
  case True
  then have "nat r < length grid" by auto
  from wellFormed_rect[OF assms this] True show ?thesis
    by (simp add: cellAt_None_iff cells_def)
next
  case False
  then show ?thesis by (auto simp: cellAt_None_iff cells_def)
qed

lemma passable_cells: "wellFormed grid \<Longrightarrow> passable grid p \<Longrightarrow> p \<in> cells grid"
  using wellFormed_cellAt_None[of grid "row p" "col p"]
  by (cases p) (auto simp: passable_def split: option.splits)

lemma getNeighbors_loop_Cons:
  "getNeighbors_loop grid r c (d # ds) acc =
     (if \<lparr>row = r + fst d, col = c + snd d\<rparr> \<in> cells grid then
        (case cellAt grid (r + fst d) (c + snd d) of
           None \<Rightarrow> Inl TypeError
         | Some cell \<Rightarrow>
             if type cell \<noteq> Wall
             then getNeighbors_loop grid r c ds (acc @ [\<lparr>row = r + fst d, col = c + snd d\<rparr>])
             else getNeighbors_loop grid r c ds acc)
      else getNeighbors_loop grid r c ds acc)"
  by (simp add: cells_def Let_def)

lemma getNeighbors_loop_wellFormed:
  assumes "wellFormed grid"
  shows "getNeighbors_loop grid r c ds acc =
         Inr (acc @ filter (passable grid) (map (\<lambda>d. \<lparr>row = r + fst d, col = c + snd d\<rparr>) ds))"
proof (induction ds arbitrary: acc)
  case Nil
  then show ?case by simp
next
  case (Cons d ds)
  let ?q = "\<lparr>row = r + fst d, col = c + snd d\<rparr>"
  show ?case
  proof (cases "cellAt grid (r + fst d) (c + snd d)")
    case None
    then have nb: "?q \<notin> cells grid" using wellFormed_cellAt_None[OF assms] by simp
    have "\<not> passable grid ?q" using None by (simp add: passable_def)
    then show ?thesis using nb Cons.IH by (simp add: getNeighbors_loop_Cons del: getNeighbors_loop.simps)
  next
    case (Some cell)
    then have ib: "?q \<in> cells grid" using wellFormed_cellAt_None[OF assms, of "r + fst d" "c + snd d"] by auto
    have p: "passable grid ?q \<longleftrightarrow> type cell \<noteq> Wall" using Some by (simp add: passable_def)
    show ?thesis using ib Some p Cons.IH by (simp add: getNeighbors_loop_Cons del: getNeighbors_loop.simps)
  qed
qed

lemma candidates_directions:
  "candidates p = map (\<lambda>d. \<lparr>row = row p + fst d, col = col p + snd d\<rparr>) directions"
  by (simp add: candidates_def directions_def)

lemma getNeighbors_wellFormed:
  "wellFormed grid \<Longrightarrow> getNeighbors grid p = Inr (filter (passable grid) (candidates p))"
  by (simp add: getNeighbors_def getNeighbors_loop_wellFormed candidates_directions)

lemma set_candidates: "set (candidates p) = {q. adjacent p q}"
proof (rule set_eqI)
  fix q
  have "q \<in> set (candidates p) \<longleftrightarrow>
        (row q = row p - 1 \<and> col q = col p) \<or> (row q = row p + 1 \<and> col q = col p) \<or>
        (row q = row p \<and> col q = col p - 1) \<or> (row q = row p \<and> col q = col p + 1)"
    by (cases q) (auto simp: candidates_def)
  also have "\<dots> \<longleftrightarrow> adjacent p q" unfolding adjacent_def by arith
  finally show "q \<in> set (candidates p) \<longleftrightarrow> q \<in> {q. adjacent p q}" by simp
qed

lemma distinct_candidates: "distinct (candidates p)"
  by (simp add: candidates_def)

lemma adjacent_sym: "adjacent p q \<Longrightarrow> adjacent q p"
  unfolding adjacent_def by arith

lemma adjacent_neq: "adjacent p q \<Longrightarrow> p \<noteq> q"
  unfolding adjacent_def by auto

lemma set_nbrs: "set (nbrs grid p) = {q. adjacent p q \<and> passable grid q}"
  by (auto simp: nbrs_def set_candidates)

lemma distinct_nbrs: "distinct (nbrs grid p)"
  by (simp add: nbrs_def distinct_candidates)

lemma getNeighbors_nbrs: "wellFormed grid \<Longrightarrow> getNeighbors grid p = Inr (nbrs grid p)"
  by (simp add: getNeighbors_wellFormed nbrs_def)

section \<open>Parent chains and path reconstruction\<close>

lemma pchain_nonempty: "pchain parent start ps \<Longrightarrow> ps \<noteq> [] \<and> hd ps = start"
  by (induction rule: pchain.induct) (auto simp: hd_append)

lemma pchain_reconstruct:
  "pchain parent start ps \<Longrightarrow> reconstruct parent start (last ps) acc = Some (Inr (ps @ acc))"
proof (induction arbitrary: acc rule: pchain.induct)
  case base
  show ?case by (subst reconstruct.simps) simp
next
  case (step ps x)
  have "reconstruct parent start x acc = reconstruct parent start (last ps) (x # acc)"
    using step.hyps(2,3) by (subst reconstruct.simps) simp
  also have "\<dots> = Some (Inr (ps @ x # acc))" by (rule step.IH)
  finally show ?case by simp
qed

lemma pchain_unique:
  "pchain parent start ps \<Longrightarrow> pchain parent start qs \<Longrightarrow> last ps = last qs \<Longrightarrow> ps = qs"
proof (induction arbitrary: qs rule: pchain.induct)
  case base
  from base(1) show ?case
  proof (cases rule: pchain.cases)
    case base
    then show ?thesis by simp
  next
    case (step rs x)
    with base(2) show ?thesis by simp
  qed
next
  case (step ps x)
  from step.prems(1) show ?case
  proof (cases rule: pchain.cases)
    case base
    with step.prems(2) step.hyps(2) show ?thesis by simp
  next
    case (step rs y)
    with step.prems(2) have xy: "y = x" by simp
    with step step.hyps(3) have "last rs = last ps" by simp
    with step.IH[of rs] step(2) have "ps = rs" by simp
    with xy step(1) show ?thesis by simp
  qed
qed

lemma pchain_prefix:
  "pchain parent start ps \<Longrightarrow> x \<in> set ps \<Longrightarrow>
   \<exists>qs. pchain parent start qs \<and> last qs = x \<and> length qs \<le> length ps \<and> set qs \<subseteq> set ps"
proof (induction rule: pchain.induct)
  case base
  then have "x = start" by simp
  then show ?case using pchain.base[of parent start] by (intro exI[of _ "[start]"]) simp
next
  case (step ps y)
  show ?case
  proof (cases "x \<in> set ps")
    case True
    from step.IH[OF this] obtain qs where "pchain parent start qs" "last qs = x" "length qs \<le> length ps" "set qs \<subseteq> set ps"
      by blast
    then show ?thesis by (intro exI[of _ qs]) auto
  next
    case False
    with step.prems have "x = y" by simp
    then show ?thesis using pchain.step[OF step.hyps] by (intro exI[of _ "ps @ [y]"]) simp
  qed
qed

lemma pchain_distinct: "pchain parent start ps \<Longrightarrow> distinct ps"
proof (induction rule: pchain.induct)
  case base
  show ?case by simp
next
  case (step ps x)
  have "x \<notin> set ps"
  proof
    assume "x \<in> set ps"
    from pchain_prefix[OF step.hyps(1) this] obtain qs where
      qs: "pchain parent start qs" "last qs = x" "length qs \<le> length ps" by blast
    have "pchain parent start (ps @ [x])" by (rule pchain.step[OF step.hyps])
    from pchain_unique[OF qs(1) this] qs(2) have "qs = ps @ [x]" by simp
    with qs(3) show False by simp
  qed
  with step.IH show ?case by simp
qed

lemma pchain_cong:
  "pchain parent start ps \<Longrightarrow> (\<And>x. x \<in> set ps \<Longrightarrow> parent' x = parent x) \<Longrightarrow> pchain parent' start ps"
proof (induction rule: pchain.induct)
  case base
  show ?case by (rule pchain.base)
next
  case (step ps x)
  have "pchain parent' start ps" using step.IH step.prems by simp
  moreover have "parent' x = Some (last ps)" using step.prems[of x] step.hyps(3) by simp
  ultimately show ?case using step.hyps(2) by (intro pchain.step)
qed

lemma stepwise_snoc: "stepwise (ps @ [x]) \<longleftrightarrow> stepwise ps \<and> (ps = [] \<or> adjacent (last ps) x)"
  by (induction ps rule: stepwise.induct) auto

lemma walk_single: "passable grid a \<Longrightarrow> walk grid a a [a]"
  by (simp add: walk_def)

lemma walk_snoc:
  "walk grid a b ps \<Longrightarrow> adjacent b c \<Longrightarrow> passable grid c \<Longrightarrow> walk grid a c (ps @ [c])"
  by (auto simp: walk_def stepwise_snoc hd_append)

lemma walk_induct [consumes 1, case_names single snoc]:
  assumes "walk grid a b ps"
    and "P a [a]"
    and "\<And>ps b c. walk grid a b ps \<Longrightarrow> P b ps \<Longrightarrow> adjacent b c \<Longrightarrow> passable grid c \<Longrightarrow> P c (ps @ [c])"
  shows "P b ps"
  using assms(1)
proof (induction ps arbitrary: b rule: rev_induct)
  case Nil
  then show ?case by (simp add: walk_def)
next
  case (snoc c ps)
  show ?case
  proof (cases "ps = []")
    case True
    with snoc.prems have "c = a" "b = a" by (auto simp: walk_def)
    with True assms(2) show ?thesis by simp
  next
    case False
    from snoc.prems have bc: "b = c" by (simp add: walk_def)
    from snoc.prems False have w: "walk grid a (last ps) ps"
      by (auto simp: walk_def stepwise_snoc hd_append)
    from snoc.prems False have "adjacent (last ps) c" "passable grid c"
      by (auto simp: walk_def stepwise_snoc)
    from assms(3)[OF w snoc.IH[OF w] this] bc show ?thesis by simp
  qed
qed

section \<open>Breadth-first search\<close>

lemma fold_discover:
  "distinct ns \<Longrightarrow>
   fold (discover cur) ns (q, V, par) =
     (q @ filter (\<lambda>n. n \<notin> V) ns, V \<union> set ns,
      (\<lambda>x. if x \<in> set (filter (\<lambda>n. n \<notin> V) ns) then Some cur else par x))"
proof (induction ns arbitrary: q V par)
  case Nil
  show ?case by simp
next
  case (Cons n ns)
  then have d: "distinct ns" and nn: "n \<notin> set ns" by simp_all
  show ?case
  proof (cases "n \<in> V")
    case True
    then have "V \<union> set (n # ns) = V \<union> set ns" by auto
    with True Cons.IH[OF d, of q V par] show ?thesis by (simp add: discover_simp)
  next
    case False
    have f: "filter (\<lambda>m. m \<notin> insert n V) ns = filter (\<lambda>m. m \<notin> V) ns"
      using nn by (intro filter_cong) auto
    have "fold (discover cur) (n # ns) (q, V, par) = fold (discover cur) ns (q @ [n], insert n V, par(n \<mapsto> cur))"
      using False by (simp add: discover_simp)
    also have "\<dots> = ((q @ [n]) @ filter (\<lambda>m. m \<notin> V) ns, insert n V \<union> set ns,
        (\<lambda>x. if x \<in> set (filter (\<lambda>m. m \<notin> V) ns) then Some cur else (par(n \<mapsto> cur)) x))"
      using Cons.IH[OF d, of "q @ [n]" "insert n V" "par(n \<mapsto> cur)"] unfolding f .
    also have "\<dots> = (q @ filter (\<lambda>m. m \<notin> V) (n # ns), V \<union> set (n # ns),
        (\<lambda>x. if x \<in> set (filter (\<lambda>m. m \<notin> V) (n # ns)) then Some cur else par x))"
      using False by (auto simp: fun_eq_iff)
    finally show ?thesis .
  qed
qed

lemma treePath_mono:
  assumes "treePath grid parent start V x ps" and "V \<subseteq> V'" and "\<And>y. y \<in> V \<Longrightarrow> parent' y = parent y"
  shows "treePath grid parent' start V' x ps"
proof -
  from assms(1) have "pchain parent start ps" and sub: "set ps \<subseteq> V" by (simp_all add: treePath_def)
  then have "pchain parent' start ps" using assms(3) by (intro pchain_cong[of parent start ps parent']) auto
  with assms(1,2) show ?thesis by (auto simp: treePath_def)
qed

lemma treePath_extend:
  assumes "treePath grid parent start V x ps" and "parent y = Some x" and "y \<noteq> start"
    and "adjacent x y" and "passable grid y" and "x \<in> V" and "y \<in> V"
  shows "treePath grid parent start V y (ps @ [y])"
proof -
  from assms(1) have pc: "pchain parent start ps" and l: "last ps = x" by (simp_all add: treePath_def)
  from pchain_nonempty[OF pc] have ne: "ps \<noteq> []" by simp
  have "pchain parent start (ps @ [y])" using pc assms(2,3) l by (intro pchain.step) simp_all
  then show ?thesis using assms ne l by (simp add: treePath_def stepwise_snoc)
qed

lemma treePath_start:
  assumes "treePath grid parent start V start ps"
  shows "ps = [start]"
proof -
  from assms have "pchain parent start ps" "last ps = start" by (simp_all add: treePath_def)
  then show ?thesis by (cases rule: pchain.cases) auto
qed

lemma treePath_result:
  assumes "treePath grid parent start V x ps"
  shows "reconstruct parent start x [] = Some (Inr ps)" and "validWalk grid start x ps"
proof -
  from assms have pc: "pchain parent start ps" and l: "last ps = x" by (simp_all add: treePath_def)
  from pchain_reconstruct[OF pc, of "[]"] l show "reconstruct parent start x [] = Some (Inr ps)" by simp
  from pchain_nonempty[OF pc] pchain_distinct[OF pc] assms
  show "validWalk grid start x ps" by (simp add: validWalk_def walk_def treePath_def)
qed

lemma sorted_map_le_last: "sorted (map f xs) \<Longrightarrow> x \<in> set xs \<Longrightarrow> f x \<le> f (last xs)"
proof (induction xs rule: rev_induct)
  case Nil
  then show ?case by simp
next
  case (snoc y ys)
  then show ?case by (auto simp: sorted_append)
qed

lemma bfs_step_inv:
  assumes wf: "wellFormed grid"
    and inv: "bfs_inv grid start endp d (current # rest) vset parent vp"
    and ne: "current \<noteq> endp"
  defines "new \<equiv> filter (\<lambda>n. n \<notin> vset) (nbrs grid current)"
  shows "bfs_inv grid start endp (\<lambda>x. if x \<in> set new then Suc (d current) else d x)
           (rest @ new) (vset \<union> set (nbrs grid current))
           (\<lambda>x. if x \<in> set new then Some current else parent x) (vp @ [current])"
proof -
  define d' where "d' = (\<lambda>x. if x \<in> set new then Suc (d current) else d x)"
  define par' where "par' = (\<lambda>x. if x \<in> set new then Some current else parent x)"
  define V' where "V' = vset \<union> set (nbrs grid current)"
  from inv have dist: "distinct (vp @ current # rest)"
    and setV: "set (vp @ current # rest) = vset"
    and hdS: "hd (vp @ current # rest) = start"
    and endN: "endp \<notin> set vp"
    and chains: "\<forall>x\<in>vset. \<exists>ps. treePath grid parent start vset x ps \<and> length ps = Suc (d x)"
    and clos: "\<forall>x\<in>set vp. \<forall>y. adjacent x y \<and> passable grid y \<longrightarrow> y \<in> vset \<and> d y \<le> Suc (d x)"
    and sortd: "sorted (map d (vp @ current # rest))"
    and lastd: "d (last (vp @ current # rest)) \<le> Suc (d current)"
    unfolding bfs_inv_def by simp_all
  have V'_eq: "V' = vset \<union> set new" unfolding V'_def new_def by auto
  have newD: "distinct new" unfolding new_def by (simp add: distinct_nbrs)
  have newV: "\<And>y. y \<in> set new \<Longrightarrow> y \<notin> vset" unfolding new_def by simp
  have newN: "\<And>y. y \<in> set new \<Longrightarrow> adjacent current y \<and> passable grid y"
    unfolding new_def using set_nbrs[of grid current] by auto
  have nbrs_cases: "\<And>y. adjacent current y \<Longrightarrow> passable grid y \<Longrightarrow> y \<in> vset \<or> y \<in> set new"
    unfolding new_def using set_nbrs[of grid current] by auto
  have d'_old: "\<And>x. x \<in> vset \<Longrightarrow> d' x = d x" unfolding d'_def using newV by auto
  have d'_new: "\<And>x. x \<in> set new \<Longrightarrow> d' x = Suc (d current)" unfolding d'_def by simp
  have par'_old: "\<And>x. x \<in> vset \<Longrightarrow> par' x = parent x" unfolding par'_def using newV by auto
  have curV: "current \<in> vset" using setV by auto
  have startV: "start \<in> vset" using hdS setV by (metis append_is_Nil_conv hd_in_set list.distinct(1))
  have dmax: "\<And>x. x \<in> vset \<Longrightarrow> d x \<le> Suc (d current)"
    using sorted_map_le_last[OF sortd] lastd setV by (metis le_trans)
  have dmin: "\<And>x. x \<in> set rest \<Longrightarrow> d current \<le> d x"
    using sortd by (auto simp: sorted_append)
  have c1: "distinct ((vp @ [current]) @ rest @ new)"
    using dist newD newV setV by auto
  have c2: "set ((vp @ [current]) @ rest @ new) = V'"
    using setV V'_eq by auto
  have c3: "(vp @ [current]) @ rest @ new \<noteq> [] \<and> hd ((vp @ [current]) @ rest @ new) = start"
    using hdS by (cases vp) auto
  have c4: "endp \<notin> set (vp @ [current])" using endN ne by simp
  have c5: "\<forall>x\<in>V'. \<exists>ps. treePath grid par' start V' x ps \<and> length ps = Suc (d' x)"
  proof
    fix x assume "x \<in> V'"
    then consider "x \<in> vset" | "x \<in> set new" using V'_eq by auto
    then show "\<exists>ps. treePath grid par' start V' x ps \<and> length ps = Suc (d' x)"
    proof cases
      case 1
      with chains obtain ps where ps: "treePath grid parent start vset x ps" "length ps = Suc (d x)" by blast
      have "treePath grid par' start V' x ps"
        using ps(1) par'_old by (intro treePath_mono[of grid parent start vset x ps V' par']) (auto simp: V'_eq)
      with ps(2) d'_old[OF 1] show ?thesis by auto
    next
      case 2
      from chains curV obtain ps where ps: "treePath grid parent start vset current ps" "length ps = Suc (d current)"
        by blast
      have tp: "treePath grid par' start V' current ps"
        using ps(1) par'_old by (intro treePath_mono[of grid parent start vset current ps V' par']) (auto simp: V'_eq)
      have "x \<noteq> start" using 2 newV startV by auto
      moreover have "par' x = Some current" using 2 by (simp add: par'_def)
      moreover have "current \<in> V'" "x \<in> V'" using curV 2 V'_eq by auto
      ultimately have "treePath grid par' start V' x (ps @ [x])"
        using tp newN[OF 2] by (intro treePath_extend[of grid par' start V' current ps x]) auto
      with ps(2) d'_new[OF 2] show ?thesis by auto
    qed
  qed
  have c6: "\<forall>x\<in>set (vp @ [current]). \<forall>y. adjacent x y \<and> passable grid y \<longrightarrow> y \<in> V' \<and> d' y \<le> Suc (d' x)"
  proof (intro ballI allI impI)
    fix x y assume x: "x \<in> set (vp @ [current])" and y: "adjacent x y \<and> passable grid y"
    have xV: "x \<in> vset" using x setV by auto
    show "y \<in> V' \<and> d' y \<le> Suc (d' x)"
    proof (cases "x = current")
      case True
      from nbrs_cases y True consider "y \<in> vset" | "y \<in> set new" by blast
      then show ?thesis
      proof cases
        case 1
        then show ?thesis using dmax[OF 1] d'_old[OF 1] d'_old[OF curV] True V'_eq by auto
      next
        case 2
        then show ?thesis using d'_new[OF 2] d'_old[OF curV] True V'_eq by auto
      qed
    next
      case False
      with x have "x \<in> set vp" by simp
      with clos y have "y \<in> vset" "d y \<le> Suc (d x)" by blast+
      then show ?thesis using d'_old xV V'_eq by auto
    qed
  qed
  have map_old: "map d' (vp @ current # rest) = map d (vp @ current # rest)"
    using d'_old setV by (intro map_cong) auto
  have map_new: "map d' new = replicate (length new) (Suc (d current))"
    using d'_new by (simp add: map_replicate_const[symmetric] cong: map_cong)
  have c7: "sorted (map d' ((vp @ [current]) @ rest @ new))"
  proof -
    have "map d' ((vp @ [current]) @ rest @ new) = map d' (vp @ current # rest) @ map d' new"
      by simp
    then have "map d' ((vp @ [current]) @ rest @ new) = map d (vp @ current # rest) @ replicate (length new) (Suc (d current))"
      unfolding map_old map_new .
    moreover have "sorted (map d (vp @ current # rest) @ replicate (length new) (Suc (d current)))"
      unfolding sorted_append using sortd dmax setV by (auto simp: sorted_replicate)
    ultimately show ?thesis by (simp only:)
  qed
  have c8: "rest @ new \<noteq> [] \<longrightarrow> d' (last ((vp @ [current]) @ rest @ new)) \<le> Suc (d' (hd (rest @ new)))"
  proof
    assume nemp: "rest @ new \<noteq> []"
    have lastle: "d' (last ((vp @ [current]) @ rest @ new)) \<le> Suc (d current)"
    proof (cases "new = []")
      case True
      then have "last ((vp @ [current]) @ rest @ new) \<in> vset" using setV nemp
        by (metis append.assoc append_Cons append_Nil append_Nil2 last_in_set snoc_eq_iff_butlast)
      then show ?thesis using dmax d'_old by auto
    next
      case False
      then have "last ((vp @ [current]) @ rest @ new) \<in> set new" by simp
      then show ?thesis using d'_new by simp
    qed
    have "d current \<le> d' (hd (rest @ new))"
    proof (cases "rest = []")
      case True
      with nemp have "hd (rest @ new) \<in> set new" by simp
      then show ?thesis using d'_new by simp
    next
      case False
      then have h: "hd (rest @ new) \<in> set rest" by simp
      then have "hd (rest @ new) \<in> vset" using setV by auto
      then show ?thesis using dmin[OF h] d'_old by simp
    qed
    with lastle show "d' (last ((vp @ [current]) @ rest @ new)) \<le> Suc (d' (hd (rest @ new)))" by simp
  qed
  show ?thesis
    unfolding bfs_inv_def
    using c1 c2 c3 c4 c5 c6 c7 c8
    unfolding d'_def par'_def V'_def by blast
qed

lemma bfs_inv_walk:
  assumes inv: "bfs_inv grid start endp d queue vset parent vp" and w: "walk grid start b ws"
  shows "(b \<in> vset \<and> d b < length ws) \<or> (\<exists>x \<in> set queue. d x < length ws)"
  using w
proof (induction rule: walk_induct)
  case single
  from inv have "start \<in> vset" unfolding bfs_inv_def by (metis hd_in_set)
  moreover from inv this obtain ps where "treePath grid parent start vset start ps" "length ps = Suc (d start)"
    unfolding bfs_inv_def by blast
  then have "d start = 0" using treePath_start by fastforce
  ultimately show ?case by simp
next
  case (snoc ps b c)
  from snoc.IH show ?case
  proof
    assume b: "b \<in> vset \<and> d b < length ps"
    from inv have "vset = set vp \<union> set queue" unfolding bfs_inv_def by auto
    with b consider "b \<in> set vp" | "b \<in> set queue" by auto
    then show ?thesis
    proof cases
      case 1
      with inv snoc.hyps(2,3) have "c \<in> vset \<and> d c \<le> Suc (d b)" unfolding bfs_inv_def by blast
      with b show ?thesis by auto
    next
      case 2
      from b have "d b < length (ps @ [c])" by simp
      with 2 show ?thesis by blast
    qed
  next
    assume "\<exists>x\<in>set queue. d x < length ps"
    then obtain x where x: "x \<in> set queue" "d x < length ps" by blast
    then have "d x < length (ps @ [c])" by simp
    with x(1) show ?thesis by blast
  qed
qed

lemma bfs_loop_correct:
  "wellFormed grid \<Longrightarrow> bfs_inv grid start endp d queue vset parent vp \<Longrightarrow>
   \<exists>r. bfs_loop grid start endp queue vset parent vp = Some (Inr (grid, r)) \<and>
       goodResult grid start endp r \<and> optimalResult grid start endp r"
proof (induction grid start endp queue vset parent vp arbitrary: d rule: bfs_loop.induct)
  case (1 grid start endp queue vset parent vp)
  note wf = "1.prems"(1) and inv = "1.prems"(2)
  show ?case
  proof (cases queue)
    case Nil
    let ?r = "\<lparr>path = [], visited = vp, success = False\<rparr>"
    have run: "bfs_loop grid start endp queue vset parent vp = Some (Inr (grid, ?r))"
      using Nil by (subst bfs_loop.simps) simp
    from inv Nil have g: "distinct vp" "vp \<noteq> []" "hd vp = start" "endp \<notin> set vp" "set vp = vset"
      unfolding bfs_inv_def by auto
    have "\<not> reachable grid start endp"
    proof
      assume "reachable grid start endp"
      then obtain ws where "walk grid start endp ws" unfolding reachable_def by blast
      from bfs_inv_walk[OF inv this] Nil have "endp \<in> vset" by simp
      with g(4,5) show False by simp
    qed
    with g have "goodResult grid start endp ?r \<and> optimalResult grid start endp ?r"
      by (simp add: goodResult_def optimalResult_def)
    with run show ?thesis by blast
  next
    case (Cons current rest)
    show ?thesis
    proof (cases "current = endp")
      case True
      from inv Cons have endV: "endp \<in> vset" unfolding bfs_inv_def True by auto
      with inv obtain ps where ps: "treePath grid parent start vset endp ps" "length ps = Suc (d endp)"
        unfolding bfs_inv_def by blast
      let ?r = "\<lparr>path = ps, visited = vp @ [current], success = True\<rparr>"
      have run: "bfs_loop grid start endp queue vset parent vp = Some (Inr (grid, ?r))"
        using Cons True treePath_result(1)[OF ps(1)] by (subst bfs_loop.simps) (simp add: finish_def)
      from inv Cons have g: "distinct (vp @ [current])" "hd (vp @ [current]) = start"
        unfolding bfs_inv_def by (cases vp; simp)+
      have sorted: "\<And>x. x \<in> set queue \<Longrightarrow> d endp \<le> d x"
        using inv Cons True unfolding bfs_inv_def by (auto simp: sorted_append)
      have "shortest grid start endp ps"
        unfolding shortest_def
      proof (intro conjI allI impI)
        show "walk grid start endp ps" using treePath_result(2)[OF ps(1)] by (simp add: validWalk_def)
      next
        fix qs assume "walk grid start endp qs"
        from bfs_inv_walk[OF inv this] sorted have "d endp < length qs" by fastforce
        with ps(2) show "length ps \<le> length qs" by simp
      qed
      with g treePath_result(2)[OF ps(1)]
      have "goodResult grid start endp ?r \<and> optimalResult grid start endp ?r"
        by (simp add: goodResult_def optimalResult_def)
      with run show ?thesis by blast
    next
      case False
      define new where "new = filter (\<lambda>n. n \<notin> vset) (nbrs grid current)"
      define d' where "d' = (\<lambda>x. if x \<in> set new then Suc (d current) else d x)"
      define par' where "par' = (\<lambda>x. if x \<in> set new then Some current else parent x)"
      have gn: "getNeighbors grid current = Inr (nbrs grid current)" by (rule getNeighbors_nbrs[OF wf])
      have fd: "fold (discover current) (nbrs grid current) (rest, vset, parent) =
                (rest @ new, vset \<union> set (nbrs grid current), par')"
        unfolding new_def par'_def by (rule fold_discover[OF distinct_nbrs])
      have inv': "bfs_inv grid start endp d' (rest @ new) (vset \<union> set (nbrs grid current)) par' (vp @ [current])"
        using bfs_step_inv[OF wf inv[unfolded Cons] False] unfolding new_def d'_def par'_def .
      have "\<exists>r. bfs_loop grid start endp (rest @ new) (vset \<union> set (nbrs grid current)) par' (vp @ [current]) =
                  Some (Inr (grid, r)) \<and> goodResult grid start endp r \<and> optimalResult grid start endp r"
        by (rule "1.IH"[OF Cons False gn fd[symmetric] refl wf inv'])
      moreover have "bfs_loop grid start endp queue vset parent vp =
          bfs_loop grid start endp (rest @ new) (vset \<union> set (nbrs grid current)) par' (vp @ [current])"
        using Cons False gn fd by (subst bfs_loop.simps) simp
      ultimately show ?thesis by simp
    qed
  qed
qed

lemma lastOfKind_passable:
  assumes "lastOfKind k grid = Some p" and "k \<noteq> Wall"
  shows "passable grid p"
  using lastOfKind_Some[OF assms(1)] assms(2) by (auto simp: passable_def)

lemma lastOfKind_distinct_kinds:
  assumes "lastOfKind k grid = Some p" and "lastOfKind k' grid = Some q" and "k \<noteq> k'"
  shows "p \<noteq> q"
  using lastOfKind_Some[OF assms(1)] lastOfKind_Some[OF assms(2)] assms(3) by auto

lemma bfs_inv_init:
  assumes "passable grid start"
  shows "bfs_inv grid start endp (\<lambda>_. 0) [start] {start} Map.empty []"
proof -
  have "treePath grid Map.empty start {start} start [start]"
    using assms by (simp add: treePath_def pchain.base)
  then show ?thesis unfolding bfs_inv_def by auto
qed

lemma bfs_correct:
  assumes "wellFormed grid" and "lastOfKind Start grid = Some start" and "lastOfKind End grid = Some endp"
  shows "\<exists>r. bfs grid = Some (Inr (grid, r)) \<and> goodResult grid start endp r \<and> optimalResult grid start endp r"
proof -
  have "bfs grid = bfs_loop grid start endp [start] {start} Map.empty []"
    using assms(2,3) by (simp add: bfs_def findStartAndEnd_lastOfKind)
  moreover have "passable grid start" using assms(2) by (rule lastOfKind_passable) simp
  ultimately show ?thesis using bfs_loop_correct[OF assms(1) bfs_inv_init] by simp
qed

section \<open>Depth-first search\<close>

lemma dfs_step_inv:
  assumes inv: "dfs_inv grid start endp stack vset parent vp"
    and st: "stack \<noteq> []" and ne: "last stack \<noteq> endp"
  defines "new \<equiv> filter (\<lambda>n. n \<notin> vset) (nbrs grid (last stack))"
  shows "dfs_inv grid start endp (butlast stack @ new) (vset \<union> set (nbrs grid (last stack)))
           (\<lambda>x. if x \<in> set new then Some (last stack) else parent x) (vp @ [last stack])"
proof -
  define current where "current = last stack"
  define rest where "rest = butlast stack"
  define par' where "par' = (\<lambda>x. if x \<in> set new then Some current else parent x)"
  define V' where "V' = vset \<union> set (nbrs grid current)"
  have stack: "stack = rest @ [current]" using st by (simp add: current_def rest_def)
  from inv have dist: "distinct (vp @ rest @ [current])"
    and setV: "set (vp @ rest @ [current]) = vset"
    and hdS: "(vp = [] \<and> rest @ [current] = [start]) \<or> (vp \<noteq> [] \<and> hd vp = start)"
    and endN: "endp \<notin> set vp"
    and chains: "\<forall>x\<in>vset. \<exists>ps. treePath grid parent start vset x ps"
    unfolding dfs_inv_def stack by simp_all
  have new_eq: "new = filter (\<lambda>n. n \<notin> vset) (nbrs grid current)" by (simp add: new_def current_def)
  have V'_eq: "V' = vset \<union> set new" unfolding V'_def new_eq by auto
  have newD: "distinct new" unfolding new_eq by (simp add: distinct_nbrs)
  have newV: "\<And>y. y \<in> set new \<Longrightarrow> y \<notin> vset" unfolding new_eq by simp
  have newN: "\<And>y. y \<in> set new \<Longrightarrow> adjacent current y \<and> passable grid y"
    unfolding new_eq using set_nbrs[of grid current] by auto
  have par'_old: "\<And>x. x \<in> vset \<Longrightarrow> par' x = parent x" unfolding par'_def using newV by auto
  have curV: "current \<in> vset" using setV by auto
  have startV: "start \<in> vset" using hdS setV by (cases vp) auto
  have c1: "distinct ((vp @ [current]) @ rest @ new)"
    using dist newD newV setV by auto
  have c2: "set ((vp @ [current]) @ rest @ new) = V'"
    using setV V'_eq by auto
  have c3: "hd (vp @ [current]) = start"
    using hdS by (cases vp) auto
  have c4: "endp \<notin> set (vp @ [current])" using endN ne by (simp add: current_def)
  have c5: "\<forall>x\<in>V'. \<exists>ps. treePath grid par' start V' x ps"
  proof
    fix x assume "x \<in> V'"
    then consider "x \<in> vset" | "x \<in> set new" using V'_eq by auto
    then show "\<exists>ps. treePath grid par' start V' x ps"
    proof cases
      case 1
      with chains obtain ps where ps: "treePath grid parent start vset x ps" by blast
      have "treePath grid par' start V' x ps"
        using ps par'_old by (intro treePath_mono[of grid parent start vset x ps V' par']) (auto simp: V'_eq)
      then show ?thesis by auto
    next
      case 2
      from chains curV obtain ps where ps: "treePath grid parent start vset current ps" by blast
      have tp: "treePath grid par' start V' current ps"
        using ps par'_old by (intro treePath_mono[of grid parent start vset current ps V' par']) (auto simp: V'_eq)
      have "x \<noteq> start" using 2 newV startV by auto
      moreover have "par' x = Some current" using 2 by (simp add: par'_def)
      moreover have "current \<in> V'" "x \<in> V'" using curV 2 V'_eq by auto
      ultimately have "treePath grid par' start V' x (ps @ [x])"
        using tp newN[OF 2] by (intro treePath_extend[of grid par' start V' current ps x]) auto
      then show ?thesis by auto
    qed
  qed
  have "dfs_inv grid start endp (rest @ new) V' par' (vp @ [current])"
    unfolding dfs_inv_def using c1 c2 c3 c4 c5 by simp
  then show ?thesis unfolding rest_def V'_def par'_def current_def .
qed

lemma dfs_loop_correct:
  "wellFormed grid \<Longrightarrow> dfs_inv grid start endp stack vset parent vp \<Longrightarrow>
   \<exists>r. dfs_loop grid start endp stack vset parent vp = Some (Inr (grid, r)) \<and> goodResult grid start endp r"
proof (induction grid start endp stack vset parent vp rule: dfs_loop.induct)
  case (1 grid start endp stack vset parent vp)
  note wf = "1.prems"(1) and inv = "1.prems"(2)
  show ?case
  proof (cases "stack = []")
    case True
    let ?r = "\<lparr>path = [], visited = vp, success = False\<rparr>"
    have run: "dfs_loop grid start endp stack vset parent vp = Some (Inr (grid, ?r))"
      using True by (subst dfs_loop.simps) simp
    from inv True have "distinct vp" "vp \<noteq> []" "hd vp = start"
      unfolding dfs_inv_def by auto
    then have "goodResult grid start endp ?r" by (simp add: goodResult_def)
    with run show ?thesis by blast
  next
    case False
    define current where "current = last stack"
    show ?thesis
    proof (cases "current = endp")
      case True
      from inv False have endV: "endp \<in> vset" unfolding dfs_inv_def True[symmetric] current_def by auto
      with inv obtain ps where ps: "treePath grid parent start vset endp ps"
        unfolding dfs_inv_def by blast
      let ?r = "\<lparr>path = ps, visited = vp @ [current], success = True\<rparr>"
      have run: "dfs_loop grid start endp stack vset parent vp = Some (Inr (grid, ?r))"
        using False True treePath_result(1)[OF ps] unfolding current_def
        by (subst dfs_loop.simps) (simp add: finish_def Let_def)
      from inv False have "distinct (vp @ [current])" "hd (vp @ [current]) = start"
        unfolding dfs_inv_def current_def by (cases vp; auto)+
      with treePath_result(2)[OF ps]
      have "goodResult grid start endp ?r" by (simp add: goodResult_def)
      with run show ?thesis by blast
    next
      case ne: False
      define new where "new = filter (\<lambda>n. n \<notin> vset) (nbrs grid current)"
      define par' where "par' = (\<lambda>x. if x \<in> set new then Some current else parent x)"
      have gn: "getNeighbors grid current = Inr (nbrs grid current)" by (rule getNeighbors_nbrs[OF wf])
      have fd: "fold (discover current) (nbrs grid current) (butlast stack, vset, parent) =
                (butlast stack @ new, vset \<union> set (nbrs grid current), par')"
        unfolding new_def par'_def by (rule fold_discover[OF distinct_nbrs])
      have inv': "dfs_inv grid start endp (butlast stack @ new) (vset \<union> set (nbrs grid current)) par' (vp @ [current])"
        using dfs_step_inv[OF inv False ne[unfolded current_def]] unfolding new_def par'_def current_def .
      have "\<exists>r. dfs_loop grid start endp (butlast stack @ new) (vset \<union> set (nbrs grid current)) par' (vp @ [current]) =
                  Some (Inr (grid, r)) \<and> goodResult grid start endp r"
        by (rule "1.IH"[OF False current_def refl ne gn fd[symmetric] refl wf inv'])
      moreover have "dfs_loop grid start endp stack vset parent vp =
          dfs_loop grid start endp (butlast stack @ new) (vset \<union> set (nbrs grid current)) par' (vp @ [current])"
        using False ne gn fd unfolding current_def by (subst dfs_loop.simps) (simp add: Let_def)
      ultimately show ?thesis by simp
    qed
  qed
qed

lemma dfs_inv_init:
  assumes "passable grid start"
  shows "dfs_inv grid start endp [start] {start} Map.empty []"
proof -
  have "treePath grid Map.empty start {start} start [start]"
    using assms by (simp add: treePath_def pchain.base)
  then show ?thesis unfolding dfs_inv_def by auto
qed

lemma dfs_correct:
  assumes "wellFormed grid" and "lastOfKind Start grid = Some start" and "lastOfKind End grid = Some endp"
  shows "\<exists>r. dfs grid = Some (Inr (grid, r)) \<and> goodResult grid start endp r"
proof -
  have "dfs grid = dfs_loop grid start endp [start] {start} Map.empty []"
    using assms(2,3) by (simp add: dfs_def findStartAndEnd_lastOfKind)
  moreover have "passable grid start" using assms(2) by (rule lastOfKind_passable) simp
  ultimately show ?thesis using dfs_loop_correct[OF assms(1) dfs_inv_init] by simp
qed

section \<open>Dijkstra\<close>

lemma js_simps [simp]:
  "js_lt (Some a) (Some b) \<longleftrightarrow> a < b"
  "js_lt None y \<longleftrightarrow> False"
  "js_lt x None \<longleftrightarrow> False"
  "js_ge (Some a) (Some b) \<longleftrightarrow> a \<ge> b"
  "js_ge None y \<longleftrightarrow> False"
  "js_ge x None \<longleftrightarrow> False"
  "js_plus (Some a) n = Some (a + n)"
  "js_plus None n = None"
  by (simp_all add: js_lt_def js_ge_def js_plus_def split: option.splits)

lemma allPositions_scanOrder: "allPositions grid = map fst (scanOrder grid)"
  by (simp add: allPositions_def scanOrder_alt map_concat comp_def)

lemma allPositions_mem: "p \<in> set (allPositions grid) \<longleftrightarrow> cellAt grid (row p) (col p) \<noteq> None"
proof -
  have "p \<in> set (allPositions grid) \<longleftrightarrow> (\<exists>cell. (p, cell) \<in> set (scanOrder grid))"
    unfolding allPositions_scanOrder by force
  then show ?thesis by (simp add: scanOrder_mem)
qed

lemma passable_allPositions: "passable grid p \<Longrightarrow> p \<in> set (allPositions grid)"
  by (auto simp: allPositions_mem passable_def split: option.splits)

lemma fold_init: "fold (\<lambda>p m. m(p \<mapsto> v)) ps m0 = (\<lambda>x. if x \<in> set ps then Some v else m0 x)"
  by (induction ps arbitrary: m0) (auto simp: fun_eq_iff)

lemma initScores_eq: "initScores grid = (\<lambda>x. if x \<in> set (allPositions grid) then Some \<infinity> else None)"
  by (simp add: initScores_def fold_init)

lemma getMinDistance_step_simp:
  "getMinDistance_step V D p (m, mp) =
     (case D p of None \<Rightarrow> (m, mp) | Some d \<Rightarrow> if p \<notin> V \<and> d < m then (d, Some p) else (m, mp))"
  by (simp add: getMinDistance_step_def)

lemma getMinDistance_fold_spec:
  "fold (getMinDistance_step V D) ps (m, mp) = (m', mp') \<Longrightarrow>
   m' \<le> m \<and> (\<forall>x \<in> set ps. x \<notin> V \<longrightarrow> (\<forall>e. D x = Some e \<longrightarrow> m' \<le> e)) \<and>
   ((mp' = mp \<and> m' = m) \<or> (\<exists>u \<in> set ps. u \<notin> V \<and> mp' = Some u \<and> D u = Some m' \<and> m' < m))"
proof (induction ps arbitrary: m mp)
  case Nil
  then show ?case by simp
next
  case (Cons a ps)
  obtain m1 mp1 where st: "getMinDistance_step V D a (m, mp) = (m1, mp1)"
    by (cases "getMinDistance_step V D a (m, mp)")
  with Cons.prems have f: "fold (getMinDistance_step V D) ps (m1, mp1) = (m', mp')" by simp
  from st have s1: "m1 \<le> m" and s2: "a \<notin> V \<longrightarrow> (\<forall>e. D a = Some e \<longrightarrow> m1 \<le> e)"
    and s3: "(mp1 = mp \<and> m1 = m) \<or> (a \<notin> V \<and> mp1 = Some a \<and> D a = Some m1 \<and> m1 < m)"
    by (auto simp: getMinDistance_step_simp split: option.splits if_splits)
  from Cons.IH[OF f] have i1: "m' \<le> m1" and i2: "\<forall>x \<in> set ps. x \<notin> V \<longrightarrow> (\<forall>e. D x = Some e \<longrightarrow> m' \<le> e)"
    and i3: "(mp' = mp1 \<and> m' = m1) \<or> (\<exists>u \<in> set ps. u \<notin> V \<and> mp' = Some u \<and> D u = Some m' \<and> m' < m1)"
    by blast+
  have c1: "m' \<le> m" using i1 s1 by simp
  have c2: "\<forall>x \<in> set (a # ps). x \<notin> V \<longrightarrow> (\<forall>e. D x = Some e \<longrightarrow> m' \<le> e)"
    using i2 s2 i1 by (auto intro: order_trans)
  have c3: "(mp' = mp \<and> m' = m) \<or> (\<exists>u \<in> set (a # ps). u \<notin> V \<and> mp' = Some u \<and> D u = Some m' \<and> m' < m)"
    using i3 s3 s1 by (auto intro: less_le_trans)
  from c1 c2 c3 show ?case by blast
qed

lemma getMinDistance_None:
  assumes "getMinDistance grid V D = None" and "x \<in> set (allPositions grid)" and "x \<notin> V"
  shows "D x = None \<or> D x = Some \<infinity>"
proof -
  obtain m' mp' where f: "fold (getMinDistance_step V D) (allPositions grid) (\<infinity>, None) = (m', mp')"
    by (cases "fold (getMinDistance_step V D) (allPositions grid) (\<infinity>, None)")
  with assms(1) have "mp' = None" by (simp add: getMinDistance_def)
  with getMinDistance_fold_spec[OF f] have "m' = \<infinity>" and "\<forall>e. D x = Some e \<longrightarrow> m' \<le> e"
    using assms(2,3) by auto
  then show ?thesis by (cases "D x") auto
qed

lemma getMinDistance_min:
  assumes "getMinDistance grid V D = Some u"
  shows "u \<in> set (allPositions grid)" "u \<notin> V" "\<exists>n. D u = Some (enat n)"
    "\<And>x e. x \<in> set (allPositions grid) \<Longrightarrow> x \<notin> V \<Longrightarrow> D x = Some e \<Longrightarrow> D u = Some a \<Longrightarrow> a \<le> e"
proof -
  obtain m' mp' where f: "fold (getMinDistance_step V D) (allPositions grid) (\<infinity>, None) = (m', mp')"
    by (cases "fold (getMinDistance_step V D) (allPositions grid) (\<infinity>, None)")
  with assms(1) have mp': "mp' = Some u" by (simp add: getMinDistance_def)
  from getMinDistance_fold_spec[OF f] mp'
  have u: "u \<in> set (allPositions grid)" "u \<notin> V" "D u = Some m'" "m' < \<infinity>"
    and mn: "\<forall>x \<in> set (allPositions grid). x \<notin> V \<longrightarrow> (\<forall>e. D x = Some e \<longrightarrow> m' \<le> e)"
    by auto
  show "u \<in> set (allPositions grid)" "u \<notin> V" using u by simp_all
  show "\<exists>n. D u = Some (enat n)" using u(3,4) by (cases m') auto
  show "\<And>x e. x \<in> set (allPositions grid) \<Longrightarrow> x \<notin> V \<Longrightarrow> D x = Some e \<Longrightarrow> D u = Some a \<Longrightarrow> a \<le> e"
    using mn u(3) by auto
qed

lemma relax_simp:
  "relax V cur n (D, par) =
     (if n \<notin> V \<and> js_lt (js_plus (D cur) 1) (D n)
      then (D(n := js_plus (D cur) 1), par(n \<mapsto> cur)) else (D, par))"
  by (simp add: relax_def Let_def)

lemma fold_relax:
  "distinct ns \<Longrightarrow> cur \<in> V \<Longrightarrow>
   fold (relax V cur) ns (D, par) =
     ((\<lambda>x. if x \<in> set ns \<and> x \<notin> V \<and> js_lt (js_plus (D cur) 1) (D x) then js_plus (D cur) 1 else D x),
      (\<lambda>x. if x \<in> set ns \<and> x \<notin> V \<and> js_lt (js_plus (D cur) 1) (D x) then Some cur else par x))"
proof (induction ns arbitrary: D par)
  case Nil
  show ?case by simp
next
  case (Cons n ns)
  then have d: "distinct ns" and nn: "n \<notin> set ns" by simp_all
  show ?case
  proof (cases "n \<notin> V \<and> js_lt (js_plus (D cur) 1) (D n)")
    case True
    then have ncur: "n \<noteq> cur" using Cons.prems(2) by auto
    let ?D1 = "D(n := js_plus (D cur) 1)"
    have D1cur: "?D1 cur = D cur" using ncur by simp
    have "fold (relax V cur) (n # ns) (D, par) = fold (relax V cur) ns (?D1, par(n \<mapsto> cur))"
      using True by (simp add: relax_simp)
    also have "\<dots> = ((\<lambda>x. if x \<in> set ns \<and> x \<notin> V \<and> js_lt (js_plus (D cur) 1) (?D1 x) then js_plus (D cur) 1 else ?D1 x),
      (\<lambda>x. if x \<in> set ns \<and> x \<notin> V \<and> js_lt (js_plus (D cur) 1) (?D1 x) then Some cur else (par(n \<mapsto> cur)) x))"
      using Cons.IH[OF d Cons.prems(2), of ?D1 "par(n \<mapsto> cur)"] unfolding D1cur .
    also have "\<dots> = ((\<lambda>x. if x \<in> set (n # ns) \<and> x \<notin> V \<and> js_lt (js_plus (D cur) 1) (D x) then js_plus (D cur) 1 else D x),
      (\<lambda>x. if x \<in> set (n # ns) \<and> x \<notin> V \<and> js_lt (js_plus (D cur) 1) (D x) then Some cur else par x))"
      using True nn by (auto simp: fun_eq_iff)
    finally show ?thesis .
  next
    case False
    have "fold (relax V cur) (n # ns) (D, par) = fold (relax V cur) ns (D, par)"
      using False by (auto simp: relax_simp)
    also have "\<dots> = ((\<lambda>x. if x \<in> set ns \<and> x \<notin> V \<and> js_lt (js_plus (D cur) 1) (D x) then js_plus (D cur) 1 else D x),
      (\<lambda>x. if x \<in> set ns \<and> x \<notin> V \<and> js_lt (js_plus (D cur) 1) (D x) then Some cur else par x))"
      by (rule Cons.IH[OF d Cons.prems(2)])
    also have "\<dots> = ((\<lambda>x. if x \<in> set (n # ns) \<and> x \<notin> V \<and> js_lt (js_plus (D cur) 1) (D x) then js_plus (D cur) 1 else D x),
      (\<lambda>x. if x \<in> set (n # ns) \<and> x \<notin> V \<and> js_lt (js_plus (D cur) 1) (D x) then Some cur else par x))"
      using False by (auto simp: fun_eq_iff)
    finally show ?thesis .
  qed
qed

lemma enat_Suc: "enat n + 1 = enat (Suc n)"
  by (simp add: one_enat_def)

lemma dijkstra_step_inv:
  assumes inv: "dijkstra_inv grid start endp D parent V vp"
    and sel: "getMinDistance grid V D = Some cur"
    and ne: "cur \<noteq> endp"
  defines "upd \<equiv> \<lambda>x. x \<in> set (nbrs grid cur) \<and> x \<notin> insert cur V \<and> js_lt (js_plus (D cur) 1) (D x)"
  shows "dijkstra_inv grid start endp (\<lambda>x. if upd x then js_plus (D cur) 1 else D x)
           (\<lambda>x. if upd x then Some cur else parent x) (insert cur V) (vp @ [cur])"
proof -
  define D' where "D' = (\<lambda>x. if upd x then js_plus (D cur) 1 else D x)"
  define par' where "par' = (\<lambda>x. if upd x then Some cur else parent x)"
  define V' where "V' = insert cur V"
  from inv have dist: "distinct vp" and setV: "set vp = V"
    and hdS: "vp \<noteq> [] \<longrightarrow> hd vp = start"
    and first: "vp = [] \<longrightarrow> (\<forall>x. x \<noteq> start \<longrightarrow> D x = None \<or> D x = Some \<infinity>)"
    and D0: "D start = Some 0"
    and endN: "endp \<notin> V"
    and dom: "\<forall>x. x \<in> set (allPositions grid) \<longleftrightarrow> D x \<noteq> None"
    and chains: "\<forall>x n. D x = Some (enat n) \<longrightarrow> (\<exists>ps. treePath grid parent start (insert x V) x ps \<and> length ps = Suc n)"
    and fin: "\<forall>x \<in> V. \<exists>n. D x = Some (enat n)"
    and mono: "\<forall>x \<in> V. \<forall>y a e. y \<notin> V \<and> D x = Some a \<and> D y = Some e \<longrightarrow> a \<le> e"
    and clos: "\<forall>x \<in> V. \<forall>y. adjacent x y \<and> passable grid y \<longrightarrow> (\<exists>a e. D x = Some a \<and> D y = Some e \<and> e \<le> a + 1)"
    unfolding dijkstra_inv_def by blast+
  note m = getMinDistance_min[OF sel]
  from m(3) obtain n where Dcur: "D cur = Some (enat n)" by blast
  have curV: "cur \<notin> V" by (rule m(2))
  have curmin: "\<And>x e. x \<notin> V \<Longrightarrow> D x = Some e \<Longrightarrow> enat n \<le> e"
    using m(4)[OF _ _ _ Dcur] dom by auto
  have plus: "js_plus (D cur) 1 = Some (enat (Suc n))" by (simp add: Dcur enat_Suc)
  have updD: "\<And>x. upd x \<Longrightarrow> \<exists>e. D x = Some e \<and> enat (Suc n) < e"
    unfolding upd_def plus by (case_tac "D x") auto
  have updV: "\<And>x. upd x \<Longrightarrow> x \<notin> V'" unfolding upd_def V'_def by simp
  have updN: "\<And>x. upd x \<Longrightarrow> adjacent cur x \<and> passable grid x"
    unfolding upd_def using set_nbrs[of grid cur] by auto
  have D'_upd: "\<And>x. upd x \<Longrightarrow> D' x = Some (enat (Suc n))" unfolding D'_def plus by simp
  have D'_old: "\<And>x. \<not> upd x \<Longrightarrow> D' x = D x" unfolding D'_def by simp
  have D'_V: "\<And>x. x \<in> V' \<Longrightarrow> D' x = D x" using D'_old updV by blast
  have par'_V: "\<And>x. x \<in> V' \<Longrightarrow> par' x = parent x" unfolding par'_def using updV by auto
  have start_nupd: "\<not> upd start" using updD[of start] D0 by (auto simp: zero_enat_def)
  have c1: "distinct (vp @ [cur])" using dist setV curV by simp
  have c2: "set (vp @ [cur]) = V'" using setV by (simp add: V'_def)
  have c3: "hd (vp @ [cur]) = start"
  proof (cases vp)
    case Nil
    with first Dcur have "cur = start" by (metis enat.distinct(1) option.distinct(1) option.inject)
    with Nil show ?thesis by simp
  next
    case (Cons a list)
    with hdS show ?thesis by simp
  qed
  have c5: "D' start = Some 0" using D'_old[OF start_nupd] D0 by simp
  have c6: "endp \<notin> V'" using endN ne by (simp add: V'_def)
  have c7: "\<forall>x. x \<in> set (allPositions grid) \<longleftrightarrow> D' x \<noteq> None"
  proof
    fix x show "x \<in> set (allPositions grid) \<longleftrightarrow> D' x \<noteq> None"
    proof (cases "upd x")
      case True
      then have "D x \<noteq> None" using updD by auto
      with dom D'_upd[OF True] show ?thesis by simp
    next
      case False
      with dom D'_old show ?thesis by simp
    qed
  qed
  from chains Dcur obtain pc where pc: "treePath grid parent start (insert cur V) cur pc" "length pc = Suc n"
    by blast
  have c8: "\<forall>x k. D' x = Some (enat k) \<longrightarrow> (\<exists>ps. treePath grid par' start (insert x V') x ps \<and> length ps = Suc k)"
  proof (intro allI impI)
    fix x k assume dx: "D' x = Some (enat k)"
    show "\<exists>ps. treePath grid par' start (insert x V') x ps \<and> length ps = Suc k"
    proof (cases "upd x")
      case True
      with dx D'_upd have k: "k = Suc n" by simp
      have agree: "\<And>y. y \<in> insert cur V \<Longrightarrow> par' y = parent y" using par'_V by (simp add: V'_def)
      have tp: "treePath grid par' start (insert x V') cur pc"
        using pc(1) agree by (intro treePath_mono[of grid parent start "insert cur V" cur pc _ par']) (auto simp: V'_def)
      have "x \<noteq> start" using True start_nupd by auto
      moreover have "par' x = Some cur" using True by (simp add: par'_def)
      ultimately have "treePath grid par' start (insert x V') x (pc @ [x])"
        using tp updN[OF True] by (intro treePath_extend[of grid par' start _ cur pc x]) (auto simp: V'_def)
      with pc(2) k show ?thesis by auto
    next
      case False
      with dx D'_old have "D x = Some (enat k)" by simp
      with chains obtain ps where ps: "treePath grid parent start (insert x V) x ps" "length ps = Suc k" by blast
      have "\<And>y. y \<in> insert x V \<Longrightarrow> par' y = parent y"
        using False updV unfolding par'_def V'_def by auto
      then have "treePath grid par' start (insert x V') x ps"
        using ps(1) by (intro treePath_mono[of grid parent start "insert x V" x ps _ par']) (auto simp: V'_def)
      with ps(2) show ?thesis by auto
    qed
  qed
  have c9: "\<forall>x \<in> V'. \<exists>k. D' x = Some (enat k)"
    using fin Dcur D'_V by (auto simp: V'_def)
  have c10: "\<forall>x \<in> V'. \<forall>y a e. y \<notin> V' \<and> D' x = Some a \<and> D' y = Some e \<longrightarrow> a \<le> e"
  proof (intro ballI allI impI)
    fix x y a e assume x: "x \<in> V'" and h: "y \<notin> V' \<and> D' x = Some a \<and> D' y = Some e"
    from x h D'_V have Dx: "D x = Some a" by simp
    have an: "a \<le> enat n"
    proof (cases "x = cur")
      case True
      with Dx Dcur show ?thesis by simp
    next
      case False
      with x have "x \<in> V" by (simp add: V'_def)
      with mono curV Dx Dcur show ?thesis by blast
    qed
    show "a \<le> e"
    proof (cases "upd y")
      case True
      with h D'_upd have "e = enat (Suc n)" by simp
      with an show ?thesis by (cases a) auto
    next
      case False
      with h D'_old have "D y = Some e" by simp
      moreover have "y \<notin> V" using h by (simp add: V'_def)
      ultimately have "enat n \<le> e" using curmin by blast
      with an show ?thesis by simp
    qed
  qed
  have Dle: "\<And>y e. D y = Some e \<Longrightarrow> \<exists>e'. D' y = Some e' \<and> e' \<le> e"
  proof -
    fix y e assume "D y = Some e"
    then show "\<exists>e'. D' y = Some e' \<and> e' \<le> e"
      using updD[of y] D'_upd[of y] D'_old[of y] by (cases "upd y") auto
  qed
  have c11: "\<forall>x \<in> V'. \<forall>y. adjacent x y \<and> passable grid y \<longrightarrow> (\<exists>a e. D' x = Some a \<and> D' y = Some e \<and> e \<le> a + 1)"
  proof (intro ballI allI impI)
    fix x y assume x: "x \<in> V'" and y: "adjacent x y \<and> passable grid y"
    show "\<exists>a e. D' x = Some a \<and> D' y = Some e \<and> e \<le> a + 1"
    proof (cases "x = cur")
      case False
      with x have "x \<in> V" by (simp add: V'_def)
      with clos y obtain a e where ae: "D x = Some a" "D y = Some e" "e \<le> a + 1" by blast
      from Dle[OF ae(2)] obtain e' where "D' y = Some e'" "e' \<le> e" by blast
      with ae D'_V[OF x] show ?thesis by (auto intro: order_trans)
    next
      case True
      have Dx: "D' x = Some (enat n)" using D'_V[OF x] True Dcur by simp
      from y have "y \<in> set (allPositions grid)" by (simp add: passable_allPositions)
      with dom have "D y \<noteq> None" by blast
      then obtain e where e: "D y = Some e" by blast
      have ynb: "y \<in> set (nbrs grid cur)" using y True by (simp add: set_nbrs)
      show ?thesis
      proof (cases "upd y")
        case u: True
        with Dx D'_upd show ?thesis by (auto simp: enat_Suc)
      next
        case nu: False
        then have D'y: "D' y = Some e" using D'_old e by simp
        have "e \<le> enat n + 1"
        proof (cases "y \<in> V'")
          case True
          then have "y \<in> V" using y \<open>x = cur\<close> adjacent_neq by (auto simp: V'_def)
          with mono curV e Dcur have "e \<le> enat n" by blast
          then show ?thesis by (metis add.right_neutral add_mono zero_le)
        next
          case False
          with nu ynb have "\<not> js_lt (js_plus (D cur) 1) (D y)" unfolding upd_def V'_def by simp
          then show ?thesis unfolding plus e by (simp add: enat_Suc)
        qed
        with Dx D'y show ?thesis by simp
      qed
    qed
  qed
  have "dijkstra_inv grid start endp D' par' V' (vp @ [cur])"
    unfolding dijkstra_inv_def using c1 c2 c3 c5 c6 c7 c8 c9 c10 c11 by simp
  then show ?thesis unfolding D'_def par'_def V'_def .
qed

lemma dijkstra_inv_walk:
  assumes inv: "dijkstra_inv grid start endp D parent V vp" and w: "walk grid start b ws"
  shows "(\<exists>k. D b = Some (enat k) \<and> k < length ws) \<or> (\<exists>x k. x \<notin> V \<and> D x = Some (enat k) \<and> k < length ws)"
  using w
proof (induction rule: walk_induct)
  case single
  from inv have "D start = Some (enat 0)" unfolding dijkstra_inv_def by (simp add: zero_enat_def)
  then show ?case by simp
next
  case (snoc ps b c)
  from snoc.IH show ?case
  proof
    assume "\<exists>k. D b = Some (enat k) \<and> k < length ps"
    then obtain k where k: "D b = Some (enat k)" "k < length ps" by blast
    show ?thesis
    proof (cases "b \<in> V")
      case True
      with inv snoc.hyps(2,3) obtain a e where "D b = Some a" "D c = Some e" "e \<le> a + 1"
        unfolding dijkstra_inv_def by blast
      with k have "e \<le> enat (Suc k)" by (simp add: enat_Suc)
      then obtain k' where "e = enat k'" "k' \<le> Suc k" by (cases e) auto
      with \<open>D c = Some e\<close> k(2) have "D c = Some (enat k') \<and> k' < length (ps @ [c])" by simp
      then show ?thesis by blast
    next
      case False
      from k have "k < length (ps @ [c])" by simp
      with False k(1) show ?thesis by blast
    qed
  next
    assume "\<exists>x k. x \<notin> V \<and> D x = Some (enat k) \<and> k < length ps"
    then obtain x k where x: "x \<notin> V" "D x = Some (enat k)" "k < length ps" by blast
    then have "k < length (ps @ [c])" by simp
    with x(1,2) show ?thesis by blast
  qed
qed

lemma dijkstra_loop_correct:
  "wellFormed grid \<Longrightarrow> dijkstra_inv grid start endp D parent V vp \<Longrightarrow>
   \<exists>r. dijkstra_loop grid start endp D parent V vp = Some (Inr (grid, r)) \<and>
       goodResult grid start endp r \<and> optimalResult grid start endp r"
proof (induction grid start endp D parent V vp rule: dijkstra_loop.induct)
  case (1 grid start endp D parent V vp)
  note wf = "1.prems"(1) and inv = "1.prems"(2)
  from inv have dom: "\<And>x. x \<in> set (allPositions grid) \<longleftrightarrow> D x \<noteq> None"
    and endN: "endp \<notin> V" and D0: "D start = Some 0" and setV: "set vp = V" and dist: "distinct vp"
    and hdS: "vp \<noteq> [] \<longrightarrow> hd vp = start"
    unfolding dijkstra_inv_def by blast+
  show ?case
  proof (cases "getMinDistance grid V D")
    case None
    let ?r = "\<lparr>path = [], visited = vp, success = False\<rparr>"
    have run: "dijkstra_loop grid start endp D parent V vp = Some (Inr (grid, ?r))"
      using None by (subst dijkstra_loop.simps) simp
    have inf: "\<And>x k. x \<notin> V \<Longrightarrow> D x = Some (enat k) \<Longrightarrow> False"
    proof -
      fix x k assume a: "x \<notin> V" "D x = Some (enat k)"
      from a(2) dom have "x \<in> set (allPositions grid)" by simp
      from getMinDistance_None[OF None this a(1)] a(2) show False by auto
    qed
    have "start \<in> V"
    proof (rule ccontr)
      assume "start \<notin> V"
      from inf[OF this, of 0] D0 show False by (simp add: zero_enat_def)
    qed
    then have "vp \<noteq> []" using setV by auto
    moreover have "\<not> reachable grid start endp"
    proof
      assume "reachable grid start endp"
      then obtain ws where "walk grid start endp ws" unfolding reachable_def by blast
      from dijkstra_inv_walk[OF inv this] inf endN show False by blast
    qed
    ultimately have "goodResult grid start endp ?r \<and> optimalResult grid start endp ?r"
      using dist hdS by (simp add: goodResult_def optimalResult_def)
    with run show ?thesis by blast
  next
    case (Some cur)
    note m = getMinDistance_min[OF Some]
    from m(3) obtain n where Dcur: "D cur = Some (enat n)" by blast
    show ?thesis
    proof (cases "cur = endp")
      case True
      from inv Dcur True obtain ps where ps: "treePath grid parent start (insert endp V) endp ps" "length ps = Suc n"
        unfolding dijkstra_inv_def by blast
      let ?r = "\<lparr>path = ps, visited = vp @ [cur], success = True\<rparr>"
      have run: "dijkstra_loop grid start endp D parent V vp = Some (Inr (grid, ?r))"
        using Some True treePath_result(1)[OF ps(1)] by (subst dijkstra_loop.simps) (simp add: finish_def)
      have "hd (vp @ [cur]) = start"
      proof (cases vp)
        case Nil
        with inv have "\<forall>x. x \<noteq> start \<longrightarrow> D x = None \<or> D x = Some \<infinity>" unfolding dijkstra_inv_def by blast
        with Dcur have "cur = start" by (metis enat.distinct(1) option.distinct(1) option.inject)
        with Nil show ?thesis by simp
      next
        case (Cons a list)
        with hdS show ?thesis by simp
      qed
      moreover have "distinct (vp @ [cur])" using dist setV m(2) by simp
      moreover have "shortest grid start endp ps"
        unfolding shortest_def
      proof (intro conjI allI impI)
        show "walk grid start endp ps" using treePath_result(2)[OF ps(1)] by (simp add: validWalk_def)
      next
        fix qs assume "walk grid start endp qs"
        from dijkstra_inv_walk[OF inv this]
        have "n < length qs"
        proof
          assume "\<exists>k. D endp = Some (enat k) \<and> k < length qs"
          with Dcur True show ?thesis by auto
        next
          assume "\<exists>x k. x \<notin> V \<and> D x = Some (enat k) \<and> k < length qs"
          then obtain x k where x: "x \<notin> V" "D x = Some (enat k)" "k < length qs" by blast
          from x(2) dom have "x \<in> set (allPositions grid)" by simp
          from m(4)[OF this x(1,2) Dcur] x(3) show ?thesis by simp
        qed
        with ps(2) show "length ps \<le> length qs" by simp
      qed
      ultimately have "goodResult grid start endp ?r \<and> optimalResult grid start endp ?r"
        using treePath_result(2)[OF ps(1)] by (simp add: goodResult_def optimalResult_def)
      with run show ?thesis by blast
    next
      case False
      define upd where "upd = (\<lambda>x. x \<in> set (nbrs grid cur) \<and> x \<notin> insert cur V \<and> js_lt (js_plus (D cur) 1) (D x))"
      define D' where "D' = (\<lambda>x. if upd x then js_plus (D cur) 1 else D x)"
      define par' where "par' = (\<lambda>x. if upd x then Some cur else parent x)"
      have gn: "getNeighbors grid cur = Inr (nbrs grid cur)" by (rule getNeighbors_nbrs[OF wf])
      have fd: "fold (relax (insert cur V) cur) (nbrs grid cur) (D, parent) = (D', par')"
        unfolding D'_def par'_def upd_def by (rule fold_relax[OF distinct_nbrs]) simp
      have inv': "dijkstra_inv grid start endp D' par' (insert cur V) (vp @ [cur])"
        using dijkstra_step_inv[OF inv Some False] unfolding D'_def par'_def upd_def .
      have "\<exists>r. dijkstra_loop grid start endp D' par' (insert cur V) (vp @ [cur]) = Some (Inr (grid, r)) \<and>
                goodResult grid start endp r \<and> optimalResult grid start endp r"
        by (rule "1.IH"[OF Some False gn fd[symmetric] wf inv'])
      moreover have "dijkstra_loop grid start endp D parent V vp =
          dijkstra_loop grid start endp D' par' (insert cur V) (vp @ [cur])"
        using Some False gn fd by (subst dijkstra_loop.simps) simp
      ultimately show ?thesis by simp
    qed
  qed
qed

lemma dijkstra_inv_init:
  assumes "passable grid start"
  shows "dijkstra_inv grid start endp ((initScores grid)(start \<mapsto> 0)) Map.empty {} []"
proof -
  let ?D = "(initScores grid)(start \<mapsto> 0)"
  have tp: "treePath grid Map.empty start {start} start [start]"
    using assms by (simp add: treePath_def pchain.base)
  have s: "start \<in> set (allPositions grid)" using assms by (rule passable_allPositions)
  have a: "\<forall>x. x \<noteq> start \<longrightarrow> ?D x = None \<or> ?D x = Some \<infinity>" by (simp add: initScores_eq)
  have b: "\<forall>x. x \<in> set (allPositions grid) \<longleftrightarrow> ?D x \<noteq> None" using s by (simp add: initScores_eq)
  have c: "\<forall>x n. ?D x = Some (enat n) \<longrightarrow> (\<exists>ps. treePath grid Map.empty start (insert x {}) x ps \<and> length ps = Suc n)"
  proof (intro allI impI)
    fix x n assume "?D x = Some (enat n)"
    then have "x = start \<and> n = 0" by (auto simp: initScores_eq zero_enat_def split: if_splits)
    with tp show "\<exists>ps. treePath grid Map.empty start (insert x {}) x ps \<and> length ps = Suc n" by auto
  qed
  show ?thesis unfolding dijkstra_inv_def using a b c by simp
qed

lemma dijkstra_correct:
  assumes "wellFormed grid" and "lastOfKind Start grid = Some start" and "lastOfKind End grid = Some endp"
  shows "\<exists>r. dijkstra grid = Some (Inr (grid, r)) \<and> goodResult grid start endp r \<and> optimalResult grid start endp r"
proof -
  have "dijkstra grid = dijkstra_loop grid start endp ((initScores grid)(start \<mapsto> 0)) Map.empty {} []"
    using assms(2,3) by (simp add: dijkstra_def findStartAndEnd_lastOfKind)
  moreover have "passable grid start" using assms(2) by (rule lastOfKind_passable) simp
  ultimately show ?thesis using dijkstra_loop_correct[OF assms(1) dijkstra_inv_init] by simp
qed

section \<open>A*\<close>

lemma lowestF_step_simp:
  "lowestF_step f key (ck, lf) =
     (case f key of None \<Rightarrow> (ck, lf) | Some v \<Rightarrow> if v < lf then (Some key, v) else (ck, lf))"
  by (simp add: lowestF_step_def)

lemma lowestF_fold_spec:
  "fold (lowestF_step f) os (ck, lf) = (ck', lf') \<Longrightarrow>
   lf' \<le> lf \<and> (\<forall>x \<in> set os. \<forall>e. f x = Some e \<longrightarrow> lf' \<le> e) \<and>
   ((ck' = ck \<and> lf' = lf) \<or> (\<exists>u \<in> set os. ck' = Some u \<and> f u = Some lf' \<and> lf' < lf))"
proof (induction os arbitrary: ck lf)
  case Nil
  then show ?case by simp
next
  case (Cons a os)
  obtain ck1 lf1 where st: "lowestF_step f a (ck, lf) = (ck1, lf1)"
    by (cases "lowestF_step f a (ck, lf)")
  with Cons.prems have fo: "fold (lowestF_step f) os (ck1, lf1) = (ck', lf')" by simp
  from st have s1: "lf1 \<le> lf" and s2: "\<forall>e. f a = Some e \<longrightarrow> lf1 \<le> e"
    and s3: "(ck1 = ck \<and> lf1 = lf) \<or> (ck1 = Some a \<and> f a = Some lf1 \<and> lf1 < lf)"
    by (auto simp: lowestF_step_simp split: option.splits if_splits)
  from Cons.IH[OF fo] have i1: "lf' \<le> lf1" and i2: "\<forall>x \<in> set os. \<forall>e. f x = Some e \<longrightarrow> lf' \<le> e"
    and i3: "(ck' = ck1 \<and> lf' = lf1) \<or> (\<exists>u \<in> set os. ck' = Some u \<and> f u = Some lf' \<and> lf' < lf1)"
    by blast+
  have c1: "lf' \<le> lf" using i1 s1 by simp
  have c2: "\<forall>x \<in> set (a # os). \<forall>e. f x = Some e \<longrightarrow> lf' \<le> e"
    using i2 s2 i1 by (auto intro: order_trans)
  have c3: "(ck' = ck \<and> lf' = lf) \<or> (\<exists>u \<in> set (a # os). ck' = Some u \<and> f u = Some lf' \<and> lf' < lf)"
    using i3 s3 s1 by (auto intro: less_le_trans)
  from c1 c2 c3 show ?case by blast
qed

lemma lowestF_None:
  assumes "lowestF f os = None" and "x \<in> set os"
  shows "f x = None \<or> f x = Some \<infinity>"
proof -
  obtain ck' lf' where fo: "fold (lowestF_step f) os (None, \<infinity>) = (ck', lf')"
    by (cases "fold (lowestF_step f) os (None, \<infinity>)")
  with assms(1) have "ck' = None" by (simp add: lowestF_def)
  with lowestF_fold_spec[OF fo] have "lf' = \<infinity>" and "\<forall>e. f x = Some e \<longrightarrow> lf' \<le> e"
    using assms(2) by auto
  then show ?thesis by (cases "f x") auto
qed

lemma lowestF_min:
  assumes "lowestF f os = Some u"
  shows "u \<in> set os" "\<exists>n. f u = Some (enat n)"
    "\<And>x e. x \<in> set os \<Longrightarrow> f x = Some e \<Longrightarrow> f u = Some a \<Longrightarrow> a \<le> e"
proof -
  obtain ck' lf' where fo: "fold (lowestF_step f) os (None, \<infinity>) = (ck', lf')"
    by (cases "fold (lowestF_step f) os (None, \<infinity>)")
  with assms(1) have ck': "ck' = Some u" by (simp add: lowestF_def)
  from lowestF_fold_spec[OF fo] ck'
  have u: "u \<in> set os" "f u = Some lf'" "lf' < \<infinity>"
    and mn: "\<forall>x \<in> set os. \<forall>e. f x = Some e \<longrightarrow> lf' \<le> e"
    by auto
  show "u \<in> set os" using u by simp
  show "\<exists>n. f u = Some (enat n)" using u(2,3) by (cases lf') auto
  show "\<And>x e. x \<in> set os \<Longrightarrow> f x = Some e \<Longrightarrow> f u = Some a \<Longrightarrow> a \<le> e"
    using mn u(2) by auto
qed

lemma fold_aStar_neighbor:
  "distinct ns \<Longrightarrow> cur \<in> C \<Longrightarrow>
   fold (aStar_neighbor C endp cur) ns (os, g, f, par) =
     (os @ filter (\<lambda>x. x \<notin> C \<and> x \<notin> set os) ns,
      (\<lambda>x. if aStar_upd os C g cur ns x then js_plus (g cur) 1 else g x),
      (\<lambda>x. if aStar_upd os C g cur ns x then js_plus (js_plus (g cur) 1) (enat (heuristic x endp)) else f x),
      (\<lambda>x. if aStar_upd os C g cur ns x then Some cur else par x))"
proof (induction ns arbitrary: os g f par)
  case Nil
  show ?case by (simp add: aStar_upd_def)
next
  case (Cons n ns)
  then have d: "distinct ns" and nn: "n \<notin> set ns" by simp_all
  note cur = Cons.prems(2)
  show ?case
  proof (cases "aStar_upd os C g cur (n # ns) n")
    case True
    then have nC: "n \<notin> C" and cond: "n \<notin> set os \<or> \<not> js_ge (js_plus (g cur) 1) (g n)"
      by (simp_all add: aStar_upd_def)
    then have ncur: "n \<noteq> cur" using cur by auto
    define os1 where "os1 = (if n \<notin> set os then os @ [n] else os)"
    let ?g1 = "g(n := js_plus (g cur) 1)"
    let ?f1 = "f(n := js_plus (js_plus (g cur) 1) (enat (heuristic n endp)))"
    have g1cur: "?g1 cur = g cur" using ncur by simp
    have step: "aStar_neighbor C endp cur n (os, g, f, par) = (os1, ?g1, ?f1, par(n \<mapsto> cur))"
      using nC cond by (auto simp: aStar_neighbor_simp os1_def)
    have upd1: "\<And>x. x \<noteq> n \<Longrightarrow> aStar_upd os1 C ?g1 cur ns x = aStar_upd os C g cur (n # ns) x"
      unfolding aStar_upd_def g1cur os1_def by auto
    have nupd1: "\<not> aStar_upd os1 C ?g1 cur ns n" using nn by (simp add: aStar_upd_def)
    have filt: "os1 @ filter (\<lambda>x. x \<notin> C \<and> x \<notin> set os1) ns = os @ filter (\<lambda>x. x \<notin> C \<and> x \<notin> set os) (n # ns)"
    proof -
      have "filter (\<lambda>x. x \<notin> C \<and> x \<notin> set os1) ns = filter (\<lambda>x. x \<notin> C \<and> x \<notin> set os) ns"
        using nn unfolding os1_def by (intro filter_cong) auto
      then show ?thesis using nC by (simp add: os1_def)
    qed
    have "fold (aStar_neighbor C endp cur) (n # ns) (os, g, f, par) =
          fold (aStar_neighbor C endp cur) ns (os1, ?g1, ?f1, par(n \<mapsto> cur))"
      using step by simp
    also have "\<dots> = (os1 @ filter (\<lambda>x. x \<notin> C \<and> x \<notin> set os1) ns,
      (\<lambda>x. if aStar_upd os1 C ?g1 cur ns x then js_plus (g cur) 1 else ?g1 x),
      (\<lambda>x. if aStar_upd os1 C ?g1 cur ns x then js_plus (js_plus (g cur) 1) (enat (heuristic x endp)) else ?f1 x),
      (\<lambda>x. if aStar_upd os1 C ?g1 cur ns x then Some cur else (par(n \<mapsto> cur)) x))"
      using Cons.IH[OF d cur, of os1 ?g1 ?f1 "par(n \<mapsto> cur)"] unfolding g1cur .
    also have "\<dots> = (os @ filter (\<lambda>x. x \<notin> C \<and> x \<notin> set os) (n # ns),
      (\<lambda>x. if aStar_upd os C g cur (n # ns) x then js_plus (g cur) 1 else g x),
      (\<lambda>x. if aStar_upd os C g cur (n # ns) x then js_plus (js_plus (g cur) 1) (enat (heuristic x endp)) else f x),
      (\<lambda>x. if aStar_upd os C g cur (n # ns) x then Some cur else par x))"
      unfolding filt using upd1 nupd1 True by (auto simp: fun_eq_iff)
    finally show ?thesis .
  next
    case False
    have nos: "n \<in> C \<or> n \<in> set os" using False by (auto simp: aStar_upd_def)
    have step: "aStar_neighbor C endp cur n (os, g, f, par) = (os, g, f, par)"
      using False by (auto simp: aStar_neighbor_simp aStar_upd_def)
    have upd1: "\<And>x. aStar_upd os C g cur ns x = aStar_upd os C g cur (n # ns) x"
      using False unfolding aStar_upd_def by auto
    have filt: "filter (\<lambda>x. x \<notin> C \<and> x \<notin> set os) (n # ns) = filter (\<lambda>x. x \<notin> C \<and> x \<notin> set os) ns"
      using nos by auto
    have "fold (aStar_neighbor C endp cur) (n # ns) (os, g, f, par) =
          fold (aStar_neighbor C endp cur) ns (os, g, f, par)"
      using step by simp
    also have "\<dots> = (os @ filter (\<lambda>x. x \<notin> C \<and> x \<notin> set os) ns,
      (\<lambda>x. if aStar_upd os C g cur ns x then js_plus (g cur) 1 else g x),
      (\<lambda>x. if aStar_upd os C g cur ns x then js_plus (js_plus (g cur) 1) (enat (heuristic x endp)) else f x),
      (\<lambda>x. if aStar_upd os C g cur ns x then Some cur else par x))"
      by (rule Cons.IH[OF d cur])
    finally show ?thesis unfolding filt upd1 .
  qed
qed

lemma heuristic_adjacent: "adjacent x y \<Longrightarrow> heuristic x e \<le> Suc (heuristic y e)"
  unfolding adjacent_def heuristic_def by arith

lemma heuristic_step: "adjacent b c \<Longrightarrow> heuristic x c \<le> Suc (heuristic x b)"
  unfolding adjacent_def heuristic_def by arith

lemma heuristic_adjacent_one: "adjacent x y \<Longrightarrow> heuristic x y = 1"
  unfolding adjacent_def heuristic_def by arith

lemma heuristic_self [simp]: "heuristic x x = 0"
  by (simp add: heuristic_def)

lemma aStar_step_inv:
  assumes inv: "aStar_inv grid start endp os C g f parent vp"
    and sel: "lowestF f os = Some u"
    and ne: "u \<noteq> endp"
  defines "os1 \<equiv> removeAll u os" and "C' \<equiv> insert u C" and "ns \<equiv> nbrs grid u"
  shows "aStar_inv grid start endp (os1 @ filter (\<lambda>x. x \<notin> C' \<and> x \<notin> set os1) ns) C'
           (\<lambda>x. if aStar_upd os1 C' g u ns x then js_plus (g u) 1 else g x)
           (\<lambda>x. if aStar_upd os1 C' g u ns x then js_plus (js_plus (g u) 1) (enat (heuristic x endp)) else f x)
           (\<lambda>x. if aStar_upd os1 C' g u ns x then Some u else parent x)
           (vp @ [u])"
proof -
  define upd where "upd = aStar_upd os1 C' g u ns"
  define os' where "os' = os1 @ filter (\<lambda>x. x \<notin> C' \<and> x \<notin> set os1) ns"
  define g' where "g' = (\<lambda>x. if upd x then js_plus (g u) 1 else g x)"
  define f' where "f' = (\<lambda>x. if upd x then js_plus (js_plus (g u) 1) (enat (heuristic x endp)) else f x)"
  define par' where "par' = (\<lambda>x. if upd x then Some u else parent x)"
  from inv have dist: "distinct vp" and setV: "set vp = C" and distO: "distinct os" and disj: "set os \<inter> C = {}"
    and hdS: "(vp = [] \<and> os = [start]) \<or> (vp \<noteq> [] \<and> hd vp = start)"
    and endN: "endp \<notin> C"
    and g0: "g start = Some 0" and startOC: "start \<in> set os \<union> C"
    and nodes: "\<forall>x \<in> set os \<union> C. \<exists>n. g x = Some (enat n) \<and> f x = Some (enat (n + heuristic x endp)) \<and>
         (\<exists>ps. treePath grid parent start (insert x C) x ps \<and> length ps = Suc n)"
    and mono: "\<forall>x \<in> C. \<forall>y \<in> set os. \<forall>a e. f x = Some a \<and> f y = Some e \<longrightarrow> a \<le> e"
    and clos: "\<forall>x \<in> C. \<forall>y. adjacent x y \<and> passable grid y \<longrightarrow>
         y \<in> set os \<union> C \<and> (\<exists>a e. g x = Some a \<and> g y = Some e \<and> e \<le> a + 1)"
    unfolding aStar_inv_def by blast+
  note m = lowestF_min[OF sel]
  have uO: "u \<in> set os" by (rule m(1))
  have uC: "u \<notin> C" using uO disj by auto
  from nodes uO obtain n pc where gu: "g u = Some (enat n)" and fu: "f u = Some (enat (n + heuristic u endp))"
    and pc: "treePath grid parent start (insert u C) u pc" "length pc = Suc n" by blast
  have umin: "\<And>y e. y \<in> set os \<Longrightarrow> f y = Some e \<Longrightarrow> enat (n + heuristic u endp) \<le> e"
    using m(3)[OF _ _ fu] by blast
  have plus: "js_plus (g u) 1 = Some (enat (Suc n))" by (simp add: gu enat_Suc)
  have set_os1: "set os1 = set os - {u}" by (simp add: os1_def)
  have setO': "set os' = set os1 \<union> {x \<in> set ns. x \<notin> C' \<and> x \<notin> set os1}" unfolding os'_def by auto
  have OC: "set os \<union> C \<subseteq> set os' \<union> C'" using setO' set_os1 by (auto simp: C'_def)
  have nsN: "\<And>x. x \<in> set ns \<longleftrightarrow> adjacent u x \<and> passable grid x" unfolding ns_def using set_nbrs[of grid u] by auto
  have updI: "\<And>x. upd x \<longleftrightarrow> x \<in> set ns \<and> x \<notin> C' \<and> (x \<notin> set os1 \<or> \<not> js_ge (Some (enat (Suc n))) (g x))"
    unfolding upd_def aStar_upd_def plus by simp
  have updC: "\<And>x. upd x \<Longrightarrow> x \<notin> C'" using updI by simp
  have updO: "\<And>x. upd x \<Longrightarrow> x \<in> set os'" using updI setO' by auto
  have newupd: "\<And>x. x \<in> set os' \<Longrightarrow> x \<notin> set os1 \<Longrightarrow> upd x" using updI setO' by auto
  have g'_upd: "\<And>x. upd x \<Longrightarrow> g' x = Some (enat (Suc n))" unfolding g'_def plus by simp
  have f'_upd: "\<And>x. upd x \<Longrightarrow> f' x = Some (enat (Suc n + heuristic x endp))" unfolding f'_def plus by simp
  have g'_old: "\<And>x. \<not> upd x \<Longrightarrow> g' x = g x" unfolding g'_def by simp
  have f'_old: "\<And>x. \<not> upd x \<Longrightarrow> f' x = f x" unfolding f'_def by simp
  have par'_old: "\<And>x. \<not> upd x \<Longrightarrow> par' x = parent x" unfolding par'_def by simp
  have start_nupd: "\<not> upd start"
  proof
    assume a: "upd start"
    with updC have "start \<notin> C'" by simp
    with startOC have "start \<in> set os1" by (auto simp: C'_def set_os1)
    with a updI g0 show False by (simp add: zero_enat_def)
  qed
  have c1: "distinct (vp @ [u])" using dist setV uC by simp
  have c2: "set (vp @ [u]) = C'" using setV by (simp add: C'_def)
  have c3: "distinct os'"
    unfolding os'_def using distO by (auto simp: os1_def distinct_removeAll ns_def distinct_nbrs)
  have c4: "set os' \<inter> C' = {}" unfolding setO' set_os1 C'_def using disj by auto
  have c5: "hd (vp @ [u]) = start"
  proof (cases vp)
    case Nil
    with hdS uO show ?thesis by simp
  next
    case (Cons a list)
    with hdS show ?thesis by simp
  qed
  have c6: "endp \<notin> C'" using endN ne by (simp add: C'_def)
  have c7: "g' start = Some 0" using g'_old[OF start_nupd] g0 by simp
  have c8: "start \<in> set os' \<union> C'" using startOC OC by blast
  have agreeC: "\<And>y. y \<in> C' \<Longrightarrow> par' y = parent y" using par'_old updC by blast
  have g'_C: "\<And>y. y \<in> C' \<Longrightarrow> g' y = g y" using g'_old updC by blast
  have f'_C: "\<And>y. y \<in> C' \<Longrightarrow> f' y = f y" using f'_old updC by blast
  have c9: "\<forall>x \<in> set os' \<union> C'. \<exists>k. g' x = Some (enat k) \<and> f' x = Some (enat (k + heuristic x endp)) \<and>
         (\<exists>ps. treePath grid par' start (insert x C') x ps \<and> length ps = Suc k)"
  proof
    fix x assume x: "x \<in> set os' \<union> C'"
    show "\<exists>k. g' x = Some (enat k) \<and> f' x = Some (enat (k + heuristic x endp)) \<and>
         (\<exists>ps. treePath grid par' start (insert x C') x ps \<and> length ps = Suc k)"
    proof (cases "upd x")
      case True
      have tp: "treePath grid par' start (insert x C') u pc"
        using pc(1) agreeC by (intro treePath_mono[of grid parent start "insert u C" u pc _ par']) (auto simp: C'_def)
      have "x \<noteq> start" using True start_nupd by auto
      moreover have "par' x = Some u" using True by (simp add: par'_def)
      moreover have "adjacent u x" "passable grid x" using True updI nsN by auto
      ultimately have "treePath grid par' start (insert x C') x (pc @ [x])"
        using tp by (intro treePath_extend[of grid par' start _ u pc x]) (auto simp: C'_def)
      with pc(2) g'_upd[OF True] f'_upd[OF True] show ?thesis by auto
    next
      case False
      have "x \<in> set os \<union> C"
      proof (rule ccontr)
        assume "x \<notin> set os \<union> C"
        with x uO have "x \<in> set os'" "x \<notin> set os1" by (auto simp: C'_def set_os1)
        with newupd False show False by blast
      qed
      with nodes obtain k ps where k: "g x = Some (enat k)" "f x = Some (enat (k + heuristic x endp))"
        "treePath grid parent start (insert x C) x ps" "length ps = Suc k" by blast
      have "\<And>y. y \<in> insert x C \<Longrightarrow> par' y = parent y"
        using False agreeC par'_old by (auto simp: C'_def)
      then have "treePath grid par' start (insert x C') x ps"
        using k(3) by (intro treePath_mono[of grid parent start "insert x C" x ps _ par']) (auto simp: C'_def)
      with k g'_old[OF False] f'_old[OF False] show ?thesis by auto
    qed
  qed
  have fC: "\<And>x a. x \<in> C' \<Longrightarrow> f x = Some a \<Longrightarrow> a \<le> enat (n + heuristic u endp)"
    using mono uO fu by (auto simp: C'_def)
  have c10: "\<forall>x \<in> C'. \<forall>y \<in> set os'. \<forall>a e. f' x = Some a \<and> f' y = Some e \<longrightarrow> a \<le> e"
  proof (intro ballI allI impI)
    fix x y a e assume x: "x \<in> C'" and y: "y \<in> set os'" and h: "f' x = Some a \<and> f' y = Some e"
    have "f x = Some a" using h f'_C[OF x] by simp
    from fC[OF x this] have a: "a \<le> enat (n + heuristic u endp)" .
    have "enat (n + heuristic u endp) \<le> e"
    proof (cases "upd y")
      case True
      then have "adjacent u y" using updI nsN by auto
      from heuristic_adjacent[OF this, of endp] f'_upd[OF True] h show ?thesis by simp
    next
      case False
      with newupd y have "y \<in> set os1" by blast
      then have "y \<in> set os" by (simp add: set_os1)
      from umin[OF this] f'_old[OF False] h show ?thesis by simp
    qed
    with a show "a \<le> e" by simp
  qed
  have gle: "\<And>y e. y \<in> set os \<union> C \<Longrightarrow> g y = Some e \<Longrightarrow> \<exists>e'. g' y = Some e' \<and> e' \<le> e"
  proof -
    fix y e assume y: "y \<in> set os \<union> C" and e: "g y = Some e"
    show "\<exists>e'. g' y = Some e' \<and> e' \<le> e"
    proof (cases "upd y")
      case True
      with updI y have "y \<in> set os1" by (auto simp: C'_def set_os1)
      with True updI e have "enat (Suc n) < e" by auto
      with g'_upd[OF True] show ?thesis by simp
    next
      case False
      with g'_old e show ?thesis by simp
    qed
  qed
  have c11: "\<forall>x \<in> C'. \<forall>y. adjacent x y \<and> passable grid y \<longrightarrow>
         y \<in> set os' \<union> C' \<and> (\<exists>a e. g' x = Some a \<and> g' y = Some e \<and> e \<le> a + 1)"
  proof (intro ballI allI impI)
    fix x y assume x: "x \<in> C'" and y: "adjacent x y \<and> passable grid y"
    have g'x: "g' x = g x" using g'_C[OF x] .
    show "y \<in> set os' \<union> C' \<and> (\<exists>a e. g' x = Some a \<and> g' y = Some e \<and> e \<le> a + 1)"
    proof (cases "x = u")
      case False
      with x have "x \<in> C" by (simp add: C'_def)
      with clos y obtain a e where ae: "y \<in> set os \<union> C" "g x = Some a" "g y = Some e" "e \<le> a + 1" by blast
      from gle[OF ae(1,3)] obtain e' where "g' y = Some e'" "e' \<le> e" by blast
      with ae g'x OC show ?thesis by (auto intro: order_trans)
    next
      case True
      have yns: "y \<in> set ns" using y True nsN by simp
      have gx: "g' x = Some (enat n)" using g'x True gu by simp
      show ?thesis
      proof (cases "y \<in> C'")
        case yC: True
        then have yC0: "y \<in> C" using y True adjacent_neq by (auto simp: C'_def)
        with nodes obtain k where k: "g y = Some (enat k)" "f y = Some (enat (k + heuristic y endp))" by blast
        from fC[OF yC k(2)] have "k + heuristic y endp \<le> n + heuristic u endp" by simp
        moreover have "heuristic u endp \<le> Suc (heuristic y endp)" using y True heuristic_adjacent by blast
        ultimately have "k \<le> Suc n" by simp
        moreover have "g' y = Some (enat k)" using g'_C[OF yC] k(1) by simp
        ultimately show ?thesis using gx yC by (auto simp: enat_Suc)
      next
        case yC: False
        show ?thesis
        proof (cases "upd y")
          case True
          with g'_upd updO gx show ?thesis by (auto simp: enat_Suc)
        next
          case False
          with updI yns yC have y1: "y \<in> set os1" and ge: "js_ge (Some (enat (Suc n))) (g y)" by auto
          from y1 nodes obtain k where k: "g y = Some (enat k)" by (auto simp: set_os1)
          with ge have "k \<le> Suc n" by simp
          moreover have "g' y = Some (enat k)" using g'_old False k by simp
          moreover have "y \<in> set os'" using y1 setO' by simp
          ultimately show ?thesis using gx by (auto simp: enat_Suc)
        qed
      qed
    qed
  qed
  have "aStar_inv grid start endp os' C' g' f' par' (vp @ [u])"
    unfolding aStar_inv_def using c1 c2 c3 c4 c5 c6 c7 c8 c9 c10 c11 by simp
  then show ?thesis unfolding os'_def g'_def f'_def par'_def upd_def .
qed

lemma aStar_inv_walk:
  assumes inv: "aStar_inv grid start endp os C g f parent vp" and w: "walk grid start b ws"
  shows "(b \<in> set os \<union> C \<and> (\<exists>k. g b = Some (enat k) \<and> k < length ws)) \<or>
         (\<exists>x \<in> set os. \<exists>k. g x = Some (enat k) \<and> k + heuristic x b < length ws)"
  using w
proof (induction rule: walk_induct)
  case single
  from inv have "g start = Some (enat 0)" "start \<in> set os \<union> C"
    unfolding aStar_inv_def by (simp_all add: zero_enat_def)
  then show ?case by simp
next
  case (snoc ps b c)
  from snoc.IH show ?case
  proof
    assume "b \<in> set os \<union> C \<and> (\<exists>k. g b = Some (enat k) \<and> k < length ps)"
    then obtain k where b: "b \<in> set os \<union> C" and k: "g b = Some (enat k)" "k < length ps" by blast
    show ?thesis
    proof (cases "b \<in> C")
      case True
      with inv snoc.hyps(2,3) obtain a e where c: "c \<in> set os \<union> C" and "g b = Some a" "g c = Some e" "e \<le> a + 1"
        unfolding aStar_inv_def by blast
      with k have "e \<le> enat (Suc k)" by (simp add: enat_Suc)
      then obtain k' where "e = enat k'" "k' \<le> Suc k" by (cases e) auto
      with \<open>g c = Some e\<close> k(2) have "g c = Some (enat k') \<and> k' < length (ps @ [c])" by simp
      with c show ?thesis by blast
    next
      case False
      with b have bo: "b \<in> set os" by simp
      from k heuristic_adjacent_one[OF snoc.hyps(2)] have "k + heuristic b c < length (ps @ [c])" by simp
      with bo k(1) show ?thesis by blast
    qed
  next
    assume "\<exists>x\<in>set os. \<exists>k. g x = Some (enat k) \<and> k + heuristic x b < length ps"
    then obtain x k where x: "x \<in> set os" "g x = Some (enat k)" "k + heuristic x b < length ps" by blast
    from heuristic_step[OF snoc.hyps(2), of x] x(3) have "k + heuristic x c < length (ps @ [c])" by simp
    with x(1,2) show ?thesis by blast
  qed
qed

lemma aStar_loop_correct:
  "wellFormed grid \<Longrightarrow> start \<noteq> endp \<Longrightarrow> aStar_inv grid start endp os C g f parent vp \<Longrightarrow>
   \<exists>r. aStar_loop grid start endp os C g f parent vp = Some (Inr (grid, r)) \<and>
       goodResult grid start endp r \<and> optimalResult grid start endp r \<and>
       (success r \<longrightarrow> endp \<notin> set (visited r))"
proof (induction grid start endp os C g f parent vp rule: aStar_loop.induct)
  case (1 grid start endp os C g f parent vp)
  note wf = "1.prems"(1) and se = "1.prems"(2) and inv = "1.prems"(3)
  from inv have endN: "endp \<notin> C" and setV: "set vp = C" and dist: "distinct vp"
    and hdS: "(vp = [] \<and> os = [start]) \<or> (vp \<noteq> [] \<and> hd vp = start)"
    and nodes: "\<forall>x \<in> set os \<union> C. \<exists>n. g x = Some (enat n) \<and> f x = Some (enat (n + heuristic x endp)) \<and>
         (\<exists>ps. treePath grid parent start (insert x C) x ps \<and> length ps = Suc n)"
    unfolding aStar_inv_def by blast+
  show ?case
  proof (cases "os = []")
    case True
    let ?r = "\<lparr>path = [], visited = vp, success = False\<rparr>"
    have run: "aStar_loop grid start endp os C g f parent vp = Some (Inr (grid, ?r))"
      using True by (subst aStar_loop.simps) simp
    have "vp \<noteq> []" "hd vp = start" using hdS True by auto
    moreover have "\<not> reachable grid start endp"
    proof
      assume "reachable grid start endp"
      then obtain ws where "walk grid start endp ws" unfolding reachable_def by blast
      from aStar_inv_walk[OF inv this] True endN show False by simp
    qed
    ultimately have "goodResult grid start endp ?r \<and> optimalResult grid start endp ?r"
      using dist by (simp add: goodResult_def optimalResult_def)
    with run show ?thesis by auto
  next
    case False
    obtain u where sel: "lowestF f os = Some u"
    proof (cases "lowestF f os")
      case None
      from False obtain x where x: "x \<in> set os" by (cases os) auto
      with nodes obtain n where "f x = Some (enat (n + heuristic x endp))" by blast
      with lowestF_None[OF None x] have False by simp
      then show ?thesis ..
    next
      case (Some u)
      then show ?thesis by (rule that)
    qed
    note m = lowestF_min[OF sel]
    show ?thesis
    proof (cases "u = endp")
      case True
      from nodes m(1) True obtain n ps where n: "g endp = Some (enat n)" "f endp = Some (enat (n + heuristic endp endp))"
        and ps: "treePath grid parent start (insert endp C) endp ps" "length ps = Suc n" by blast
      let ?r = "\<lparr>path = ps, visited = vp, success = True\<rparr>"
      have run: "aStar_loop grid start endp os C g f parent vp = Some (Inr (grid, ?r))"
        using False sel True treePath_result(1)[OF ps(1)] by (subst aStar_loop.simps) (simp add: finish_def)
      have vpne: "vp \<noteq> []" "hd vp = start"
        using hdS m(1) True se by auto
      have "shortest grid start endp ps"
        unfolding shortest_def
      proof (intro conjI allI impI)
        show "walk grid start endp ps" using treePath_result(2)[OF ps(1)] by (simp add: validWalk_def)
      next
        fix qs assume "walk grid start endp qs"
        from aStar_inv_walk[OF inv this]
        have "n < length qs"
        proof
          assume "endp \<in> set os \<union> C \<and> (\<exists>k. g endp = Some (enat k) \<and> k < length qs)"
          with n(1) show ?thesis by auto
        next
          assume "\<exists>x\<in>set os. \<exists>k. g x = Some (enat k) \<and> k + heuristic x endp < length qs"
          then obtain x k where x: "x \<in> set os" "g x = Some (enat k)" "k + heuristic x endp < length qs" by blast
          from nodes x(1) obtain k' where "g x = Some (enat k')" "f x = Some (enat (k' + heuristic x endp))"
            by blast
          with x(2) have "f x = Some (enat (k + heuristic x endp))" by simp
          from m(3)[OF x(1) this] n(2) True have "n \<le> k + heuristic x endp" by simp
          with x(3) show ?thesis by simp
        qed
        with ps(2) show "length ps \<le> length qs" by simp
      qed
      then have "goodResult grid start endp ?r \<and> optimalResult grid start endp ?r \<and> endp \<notin> set (visited ?r)"
        using treePath_result(2)[OF ps(1)] dist vpne endN setV by (simp add: goodResult_def optimalResult_def)
      with run show ?thesis by auto
    next
      case ne: False
      define os1 where "os1 = removeAll u os"
      define C' where "C' = insert u C"
      define ns where "ns = nbrs grid u"
      define os' where "os' = os1 @ filter (\<lambda>x. x \<notin> C' \<and> x \<notin> set os1) ns"
      define g' where "g' = (\<lambda>x. if aStar_upd os1 C' g u ns x then js_plus (g u) 1 else g x)"
      define f' where "f' = (\<lambda>x. if aStar_upd os1 C' g u ns x then js_plus (js_plus (g u) 1) (enat (heuristic x endp)) else f x)"
      define par' where "par' = (\<lambda>x. if aStar_upd os1 C' g u ns x then Some u else parent x)"
      have gn: "getNeighbors grid u = Inr ns" unfolding ns_def by (rule getNeighbors_nbrs[OF wf])
      have fd: "fold (aStar_neighbor (insert u C) endp u) ns (removeAll u os, g, f, parent) = (os', g', f', par')"
        unfolding os'_def g'_def f'_def par'_def os1_def C'_def ns_def
        by (rule fold_aStar_neighbor[OF distinct_nbrs]) simp
      have inv': "aStar_inv grid start endp os' (insert u C) g' f' par' (vp @ [u])"
        using aStar_step_inv[OF inv sel ne] unfolding os'_def g'_def f'_def par'_def os1_def C'_def ns_def .
      have "\<exists>r. aStar_loop grid start endp os' (insert u C) g' f' par' (vp @ [u]) = Some (Inr (grid, r)) \<and>
                goodResult grid start endp r \<and> optimalResult grid start endp r \<and>
                (success r \<longrightarrow> endp \<notin> set (visited r))"
        by (rule "1.IH"[OF False sel ne gn fd[symmetric] refl refl wf se inv'])
      moreover have "aStar_loop grid start endp os C g f parent vp =
          aStar_loop grid start endp os' (insert u C) g' f' par' (vp @ [u])"
        using False sel ne gn fd by (subst aStar_loop.simps) simp
      ultimately show ?thesis by simp
    qed
  qed
qed

lemma aStar_inv_init:
  assumes "passable grid start"
  shows "aStar_inv grid start endp [start] {} ((initScores grid)(start \<mapsto> 0))
           ((initScores grid)(start \<mapsto> enat (heuristic start endp))) Map.empty []"
proof -
  have "treePath grid Map.empty start {start} start [start]"
    using assms by (simp add: treePath_def pchain.base)
  then show ?thesis unfolding aStar_inv_def by (auto simp: zero_enat_def)
qed

lemma aStar_correct:
  assumes "wellFormed grid" and "lastOfKind Start grid = Some start" and "lastOfKind End grid = Some endp"
  shows "\<exists>r. aStar grid = Some (Inr (grid, r)) \<and> goodResult grid start endp r \<and> optimalResult grid start endp r \<and>
             (success r \<longrightarrow> endp \<notin> set (visited r))"
proof -
  have "aStar grid = aStar_loop grid start endp [start] {} ((initScores grid)(start \<mapsto> 0))
           ((initScores grid)(start \<mapsto> enat (heuristic start endp))) Map.empty []"
    using assms(2,3) by (simp add: aStar_def findStartAndEnd_lastOfKind)
  moreover have "passable grid start" using assms(2) by (rule lastOfKind_passable) simp
  moreover have "start \<noteq> endp" using lastOfKind_distinct_kinds[OF assms(2,3)] by simp
  ultimately show ?thesis using aStar_loop_correct[OF assms(1) _ aStar_inv_init] by simp
qed

section \<open>Shortest paths and the Manhattan distance\<close>

lemma walk_lower_bound: "walk grid a b ws \<Longrightarrow> heuristic a b < length ws"
proof (induction rule: walk_induct)
  case single
  show ?case by simp
next
  case (snoc ps b c)
  from heuristic_step[OF snoc.hyps(2), of a] snoc.IH show ?case by simp
qed

lemma noWalls_passable:
  assumes "wellFormed grid" and "noWalls grid" and "p \<in> cells grid"
  shows "passable grid p"
proof -
  have "\<lparr>row = row p, col = col p\<rparr> \<in> cells grid" using assms(3) by (cases p) simp
  with wellFormed_cellAt_None[OF assms(1), of "row p" "col p"]
  obtain cell where c: "cellAt grid (row p) (col p) = Some cell" by auto
  then have "(p, cell) \<in> set (scanOrder grid)" by (simp add: scanOrder_mem)
  moreover from assms(2) have "filter (\<lambda>pc. type (snd pc) = Wall) (scanOrder grid) = []"
    by (simp add: noWalls_def kindCount_scanOrder)
  ultimately have "type cell \<noteq> Wall" by (auto simp: filter_empty_conv)
  with c show ?thesis by (simp add: passable_def)
qed

lemma heuristic_zero: "heuristic a b = 0 \<Longrightarrow> a = b"
  by (cases a; cases b) (simp add: heuristic_def)

lemma closer_cell:
  assumes "a \<in> cells grid" and "b \<in> cells grid" and "heuristic a b = Suc n"
  shows "\<exists>b'. b' \<in> cells grid \<and> adjacent b' b \<and> heuristic a b' = n"
proof (cases "row b = row a")
  case False
  let ?b = "\<lparr>row = row b + (if row b < row a then 1 else - 1), col = col b\<rparr>"
  have "?b \<in> cells grid" using assms(1,2) False by (auto simp: cells_def)
  moreover have "adjacent ?b b" by (simp add: adjacent_def)
  moreover have "heuristic a ?b = n" using assms(3) False by (auto simp: heuristic_def)
  ultimately show ?thesis by blast
next
  case True
  with assms(3) have ne: "col b \<noteq> col a" by (auto simp: heuristic_def)
  let ?b = "\<lparr>row = row b, col = col b + (if col b < col a then 1 else - 1)\<rparr>"
  have "?b \<in> cells grid" using assms(1,2) ne by (auto simp: cells_def)
  moreover have "adjacent ?b b" by (simp add: adjacent_def)
  moreover have "heuristic a ?b = n" using assms(3) ne True by (auto simp: heuristic_def)
  ultimately show ?thesis by blast
qed

lemma manhattan_walk:
  assumes wf: "wellFormed grid" and nw: "noWalls grid" and a: "a \<in> cells grid"
  shows "b \<in> cells grid \<Longrightarrow> heuristic a b = n \<Longrightarrow> \<exists>ws. walk grid a b ws \<and> length ws = Suc n"
proof (induction n arbitrary: b)
  case 0
  then have "a = b" using heuristic_zero by simp
  with noWalls_passable[OF wf nw a] have "walk grid a b [a]" by (simp add: walk_single)
  then show ?case by (intro exI[of _ "[a]"]) simp
next
  case (Suc n)
  from closer_cell[OF a Suc.prems] obtain b' where b': "b' \<in> cells grid" "adjacent b' b" "heuristic a b' = n"
    by blast
  from Suc.IH[OF b'(1,3)] obtain ws where ws: "walk grid a b' ws" "length ws = Suc n" by blast
  from walk_snoc[OF ws(1) b'(2) noWalls_passable[OF wf nw Suc.prems(1)]] ws(2)
  show ?case by (intro exI[of _ "ws @ [b]"]) simp
qed

lemma shortest_length_unique: "shortest grid a b ps \<Longrightarrow> shortest grid a b qs \<Longrightarrow> length ps = length qs"
  unfolding shortest_def by (meson le_antisym)

lemma shortest_manhattan:
  assumes wf: "wellFormed grid" and nw: "noWalls grid" and ab: "passable grid a" "passable grid b"
    and sh: "shortest grid a b ps"
  shows "length ps = Suc (heuristic a b)"
proof -
  from manhattan_walk[OF wf nw passable_cells[OF wf ab(1)] passable_cells[OF wf ab(2)] refl]
  obtain ws where ws: "walk grid a b ws" "length ws = Suc (heuristic a b)" by blast
  with sh have "length ps \<le> Suc (heuristic a b)" unfolding shortest_def by auto
  moreover from sh have "heuristic a b < length ps" unfolding shortest_def using walk_lower_bound by blast
  ultimately show ?thesis by simp
qed

text \<open>
  C5. On a well-formed grid with its start and its end, where the end can be reached
  through non-wall cells, \<open>bfs\<close>, \<open>dijkstra\<close> and \<open>aStar\<close> each return with
  \<open>success = true\<close> and a path that is a walk from start to end of minimum length, so
  the three lengths are equal; on a grid without walls the length is the Manhattan
  distance between start and end plus one.
\<close>

theorem shortest_path_strategies:
  assumes wf: "wellFormed grid"
    and s: "lastOfKind Start grid = Some start" and e: "lastOfKind End grid = Some endp"
    and r: "reachable grid start endp"
  shows "\<exists>rb rd ra.
           bfs grid = Some (Inr (grid, rb)) \<and> dijkstra grid = Some (Inr (grid, rd)) \<and>
           aStar grid = Some (Inr (grid, ra)) \<and>
           success rb \<and> success rd \<and> success ra \<and>
           shortest grid start endp (path rb) \<and> shortest grid start endp (path rd) \<and>
           shortest grid start endp (path ra) \<and>
           length (path rb) = length (path rd) \<and> length (path rd) = length (path ra) \<and>
           (noWalls grid \<longrightarrow> length (path rb) = heuristic start endp + 1)"
proof -
  from bfs_correct[OF wf s e] obtain rb where rb: "bfs grid = Some (Inr (grid, rb))"
    "optimalResult grid start endp rb" by blast
  from dijkstra_correct[OF wf s e] obtain rd where rd: "dijkstra grid = Some (Inr (grid, rd))"
    "optimalResult grid start endp rd" by blast
  from aStar_correct[OF wf s e] obtain ra where ra: "aStar grid = Some (Inr (grid, ra))"
    "optimalResult grid start endp ra" by blast
  from rb(2) rd(2) ra(2) r have suc: "success rb" "success rd" "success ra"
    and sh: "shortest grid start endp (path rb)" "shortest grid start endp (path rd)"
      "shortest grid start endp (path ra)"
    unfolding optimalResult_def by blast+
  have p: "passable grid start" "passable grid endp"
    using lastOfKind_passable[OF s] lastOfKind_passable[OF e] by simp_all
  have "noWalls grid \<longrightarrow> length (path rb) = heuristic start endp + 1"
    using shortest_manhattan[OF wf _ p sh(1)] by simp
  with rb(1) rd(1) ra(1) suc sh shortest_length_unique[OF sh(1,2)] shortest_length_unique[OF sh(2,3)]
  show ?thesis by blast
qed

theorem shortest_path_strategies_witness:
  "wellFormed (gridOf [[Start, Wall, End], [Empty, Wall, Empty], [Empty, Empty, Empty]]) \<and>
   lastOfKind Start (gridOf [[Start, Wall, End], [Empty, Wall, Empty], [Empty, Empty, Empty]]) = Some (pos 0 0) \<and>
   lastOfKind End (gridOf [[Start, Wall, End], [Empty, Wall, Empty], [Empty, Empty, Empty]]) = Some (pos 0 2) \<and>
   reachable (gridOf [[Start, Wall, End], [Empty, Wall, Empty], [Empty, Empty, Empty]]) (pos 0 0) (pos 0 2) \<and>
   (\<exists>rb rd ra.
      bfs (gridOf [[Start, Wall, End], [Empty, Wall, Empty], [Empty, Empty, Empty]]) =
        Some (Inr (gridOf [[Start, Wall, End], [Empty, Wall, Empty], [Empty, Empty, Empty]], rb)) \<and>
      dijkstra (gridOf [[Start, Wall, End], [Empty, Wall, Empty], [Empty, Empty, Empty]]) =
        Some (Inr (gridOf [[Start, Wall, End], [Empty, Wall, Empty], [Empty, Empty, Empty]], rd)) \<and>
      aStar (gridOf [[Start, Wall, End], [Empty, Wall, Empty], [Empty, Empty, Empty]]) =
        Some (Inr (gridOf [[Start, Wall, End], [Empty, Wall, Empty], [Empty, Empty, Empty]], ra)) \<and>
      success rb \<and> success rd \<and> success ra \<and>
      length (path rb) = length (path rd) \<and> length (path rd) = length (path ra))"
proof -
  let ?g = "gridOf [[Start, Wall, End], [Empty, Wall, Empty], [Empty, Empty, Empty]]"
  have wf: "wellFormed ?g" by code_simp
  have s: "lastOfKind Start ?g = Some (pos 0 0)" by code_simp
  have e: "lastOfKind End ?g = Some (pos 0 2)" by code_simp
  have "walk ?g (pos 0 0) (pos 0 2) [pos 0 0, pos 1 0, pos 2 0, pos 2 1, pos 2 2, pos 1 2, pos 0 2]"
    by code_simp
  then have r: "reachable ?g (pos 0 0) (pos 0 2)" unfolding reachable_def by blast
  from shortest_path_strategies[OF wf s e r] wf s e r show ?thesis by blast
qed

section \<open>Greedy best-first\<close>

lemma greedy_pick_fold:
  "ci < n \<Longrightarrow> set js \<subseteq> {..<n} \<Longrightarrow>
   fold (\<lambda>i c. if h (os ! i) < h (os ! c) then i else c) js ci < n \<and>
   h (os ! fold (\<lambda>i c. if h (os ! i) < h (os ! c) then i else c) js ci) \<le> h (os ! ci) \<and>
   (\<forall>j \<in> set js. h (os ! fold (\<lambda>i c. if h (os ! i) < h (os ! c) then i else c) js ci) \<le> (h (os ! j) :: nat))"
proof (induction js arbitrary: ci)
  case Nil
  then show ?case by simp
next
  case (Cons j js)
  let ?c1 = "if h (os ! j) < h (os ! ci) then j else ci"
  have c1: "?c1 < n" using Cons.prems by auto
  have sub: "set js \<subseteq> {..<n}" using Cons.prems by auto
  note IH = Cons.IH[OF c1 sub]
  have le: "h (os ! ?c1) \<le> h (os ! ci)" "h (os ! ?c1) \<le> h (os ! j)" by auto
  show ?case using IH le by (auto intro: order_trans simp del: fold_simps simp add: fold_Cons)
qed

lemma greedy_pick_min:
  assumes "os \<noteq> []"
  shows "greedy_pick h os < length os"
    and "\<And>x. x \<in> set os \<Longrightarrow> h (os ! greedy_pick h os) \<le> h x"
proof -
  have "0 < length os" using assms by simp
  moreover have "set [0..<length os] \<subseteq> {..<length os}" by auto
  ultimately have "fold (\<lambda>i c. if h (os ! i) < h (os ! c) then i else c) [0..<length os] 0 < length os \<and>
   h (os ! fold (\<lambda>i c. if h (os ! i) < h (os ! c) then i else c) [0..<length os] 0) \<le> h (os ! 0) \<and>
   (\<forall>j \<in> set [0..<length os]. h (os ! fold (\<lambda>i c. if h (os ! i) < h (os ! c) then i else c) [0..<length os] 0) \<le> h (os ! j))"
    by (rule greedy_pick_fold)
  then
  have a: "greedy_pick h os < length os" and b: "\<forall>j < length os. h (os ! greedy_pick h os) \<le> h (os ! j)"
    unfolding greedy_pick_def by auto
  show "greedy_pick h os < length os" by (rule a)
  fix x assume "x \<in> set os"
  then obtain j where "j < length os" "os ! j = x" by (auto simp: in_set_conv_nth)
  with b show "h (os ! greedy_pick h os) \<le> h x" by auto
qed

lemma remove_nth:
  assumes "i < length os" and "distinct os"
  shows "set (take i os @ drop (Suc i) os) = set os - {os ! i}"
    and "distinct (take i os @ drop (Suc i) os)"
proof -
  have os: "os = take i os @ os ! i # drop (Suc i) os" using assms(1) by (rule id_take_nth_drop)
  with assms(2) have d: "distinct (take i os @ os ! i # drop (Suc i) os)" by simp
  then show "distinct (take i os @ drop (Suc i) os)" by auto
  from d have "os ! i \<notin> set (take i os @ drop (Suc i) os)" by auto
  moreover have "set os = insert (os ! i) (set (take i os @ drop (Suc i) os))"
    by (subst os) auto
  ultimately show "set (take i os @ drop (Suc i) os) = set os - {os ! i}" by auto
qed

lemma greedy_neighbors_Cons:
  "greedy_neighbors grid rows cols closedSet current (neighbor # rest) (os, cf) =
     (if neighbor \<notin> {p. 0 \<le> row p \<and> row p < int rows \<and> 0 \<le> col p \<and> col p < int cols}
      then greedy_neighbors grid rows cols closedSet current rest (os, cf)
      else
        (case cellAt grid (row neighbor) (col neighbor) of
           None \<Rightarrow> Inl TypeError
         | Some cell \<Rightarrow>
             if type cell = Wall \<or> neighbor \<in> closedSet
             then greedy_neighbors grid rows cols closedSet current rest (os, cf)
             else if neighbor \<notin> set os
             then greedy_neighbors grid rows cols closedSet current rest
                    (os @ [neighbor], cf(neighbor \<mapsto> current))
             else greedy_neighbors grid rows cols closedSet current rest (os, cf)))"
  by (auto simp: not_le not_less split: option.splits)

lemma greedy_neighbors_wellFormed:
  assumes wf: "wellFormed grid"
  shows "distinct cs \<Longrightarrow>
    greedy_neighbors grid (length grid) (length (grid ! 0)) {start} cur cs (os, cf) =
      Inr (os @ filter (\<lambda>x. passable grid x \<and> x \<noteq> start \<and> x \<notin> set os) cs,
           (\<lambda>x. if x \<in> set cs \<and> passable grid x \<and> x \<noteq> start \<and> x \<notin> set os then Some cur else cf x))"
proof (induction cs arbitrary: os cf)
  case Nil
  show ?case by simp
next
  case (Cons c cs)
  then have d: "distinct cs" and cn: "c \<notin> set cs" by simp_all
  note IH = Cons.IH[OF d]
  have cells_eq: "{p. 0 \<le> row p \<and> row p < int (length grid) \<and> 0 \<le> col p \<and> col p < int (length (grid ! 0))} = cells grid"
    by (simp add: cells_def)
  show ?case
  proof (cases "cellAt grid (row c) (col c)")
    case None
    then have nc: "c \<notin> cells grid" using wellFormed_cellAt_None[OF wf, of "row c" "col c"] by (cases c) simp
    have np: "\<not> passable grid c" using None by (simp add: passable_def)
    show ?thesis
      unfolding greedy_neighbors_Cons cells_eq using nc np IH[of os cf]
      by (auto simp: fun_eq_iff)
  next
    case (Some cell)
    then have ic: "c \<in> cells grid" using wellFormed_cellAt_None[OF wf, of "row c" "col c"] by (cases c) auto
    have p: "passable grid c \<longleftrightarrow> type cell \<noteq> Wall" using Some by (simp add: passable_def)
    show ?thesis
    proof (cases "passable grid c \<and> c \<noteq> start \<and> c \<notin> set os")
      case True
      have f: "filter (\<lambda>x. passable grid x \<and> x \<noteq> start \<and> x \<notin> set (os @ [c])) cs =
               filter (\<lambda>x. passable grid x \<and> x \<noteq> start \<and> x \<notin> set os) cs"
        using cn by (intro filter_cong) auto
      have "greedy_neighbors grid (length grid) (length (grid ! 0)) {start} cur (c # cs) (os, cf) =
            greedy_neighbors grid (length grid) (length (grid ! 0)) {start} cur cs (os @ [c], cf(c \<mapsto> cur))"
        unfolding greedy_neighbors_Cons cells_eq using ic Some p True by simp
      also have "\<dots> = Inr ((os @ [c]) @ filter (\<lambda>x. passable grid x \<and> x \<noteq> start \<and> x \<notin> set os) cs,
           (\<lambda>x. if x \<in> set cs \<and> passable grid x \<and> x \<noteq> start \<and> x \<notin> set (os @ [c]) then Some cur else (cf(c \<mapsto> cur)) x))"
        using IH[of "os @ [c]" "cf(c \<mapsto> cur)"] unfolding f .
      also have "\<dots> = Inr (os @ filter (\<lambda>x. passable grid x \<and> x \<noteq> start \<and> x \<notin> set os) (c # cs),
           (\<lambda>x. if x \<in> set (c # cs) \<and> passable grid x \<and> x \<noteq> start \<and> x \<notin> set os then Some cur else cf x))"
        using True cn by (auto simp: fun_eq_iff)
      finally show ?thesis .
    next
      case False
      have "greedy_neighbors grid (length grid) (length (grid ! 0)) {start} cur (c # cs) (os, cf) =
            greedy_neighbors grid (length grid) (length (grid ! 0)) {start} cur cs (os, cf)"
        unfolding greedy_neighbors_Cons cells_eq using ic Some p False by auto
      also have "\<dots> = Inr (os @ filter (\<lambda>x. passable grid x \<and> x \<noteq> start \<and> x \<notin> set os) (c # cs),
           (\<lambda>x. if x \<in> set (c # cs) \<and> passable grid x \<and> x \<noteq> start \<and> x \<notin> set os then Some cur else cf x))"
        using IH[of os cf] False by (auto simp: fun_eq_iff)
      finally show ?thesis .
    qed
  qed
qed

lemma reconstruct_cycle_aux:
  assumes c: "cf l = Some p" "cf p = Some l" "l \<noteq> start" "p \<noteq> start"
    and r: "reconstruct par st x acc = Some y"
  shows "par = cf \<and> st = start \<and> (x = l \<or> x = p) \<longrightarrow> False"
proof (rule reconstruct.raw_induct[where P = "\<lambda>par st x acc y. par = cf \<and> st = start \<and> (x = l \<or> x = p) \<longrightarrow> False", OF _ r])
  fix rec :: "(Position \<rightharpoonup> Position) \<Rightarrow> Position \<Rightarrow> Position \<Rightarrow> Position list \<Rightarrow> (error + Position list) option"
  fix parent start' cur pth y'
  assume IH: "\<And>parent2 start2 cur2 pth2 y2. rec parent2 start2 cur2 pth2 = Some y2 \<Longrightarrow>
                parent2 = cf \<and> start2 = start \<and> (cur2 = l \<or> cur2 = p) \<longrightarrow> False"
    and body: "(if cur \<noteq> start' then case parent cur of None \<Rightarrow> Some (Inl TypeError)
                 | Some q \<Rightarrow> rec parent start' q (cur # pth)
               else Some (Inr (start' # pth))) = Some y'"
  show "parent = cf \<and> start' = start \<and> (cur = l \<or> cur = p) \<longrightarrow> False"
  proof (intro impI; elim conjE)
    assume a: "parent = cf" "start' = start" "cur = l \<or> cur = p"
    then obtain q where q: "parent cur = Some q" "q = l \<or> q = p" "cur \<noteq> start'" using c by auto
    with body have "rec parent start' q (cur # pth) = Some y'" by simp
    from IH[OF this] a(1,2) q(2) show False by simp
  qed
qed

lemma reconstruct_cycle:
  assumes "cf l = Some p" and "cf p = Some l" and "l \<noteq> start" and "p \<noteq> start"
  shows "reconstruct cf start l acc = None"
proof (cases "reconstruct cf start l acc")
  case None
  then show ?thesis .
next
  case (Some y)
  from reconstruct_cycle_aux[OF assms Some] show ?thesis by simp
qed

lemma greedy_loop_unfold:
  assumes wf: "wellFormed grid"
  shows "greedy_loop grid (length grid) (length (grid ! 0)) start endp {start} os cf vis =
     (if os = [] then Some (Inr (grid, \<lparr>path = [], visited = vis, success = False\<rparr>))
      else if greedy_cur endp os = endp
      then finish grid (vis @ [endp]) (reconstruct cf start endp [])
      else greedy_loop grid (length grid) (length (grid ! 0)) start endp {start}
             (greedy_open grid start endp os) (greedy_cf grid start endp os cf) (vis @ [greedy_cur endp os]))"
  unfolding greedy_cur_def greedy_rest_def greedy_open_def greedy_cf_def
  by (subst greedy_loop.simps)
     (simp add: Let_def greedy_neighbors_wellFormed[OF wf distinct_candidates])

lemma greedy_step_facts:
  assumes "os \<noteq> []" and "distinct os"
  shows "greedy_cur endp os \<in> set os"
    and "\<And>x. x \<in> set os \<Longrightarrow> heuristic (greedy_cur endp os) endp \<le> heuristic x endp"
    and "set (greedy_rest endp os) = set os - {greedy_cur endp os}"
    and "distinct (greedy_rest endp os)"
    and "set (greedy_open grid start endp os) =
           (set os - {greedy_cur endp os}) \<union> {x. adjacent (greedy_cur endp os) x \<and> passable grid x \<and> x \<noteq> start}"
    and "distinct (greedy_open grid start endp os)"
    and "\<And>x. greedy_cf grid start endp os cf x =
           (if adjacent (greedy_cur endp os) x \<and> passable grid x \<and> x \<noteq> start \<and> x \<notin> set os
            then Some (greedy_cur endp os) else cf x)"
proof -
  let ?h = "\<lambda>pos. heuristic pos endp"
  let ?i = "greedy_pick ?h os"
  note p = greedy_pick_min[OF assms(1), where h = ?h]
  show cur: "greedy_cur endp os \<in> set os" unfolding greedy_cur_def using p(1) by simp
  show "\<And>x. x \<in> set os \<Longrightarrow> heuristic (greedy_cur endp os) endp \<le> heuristic x endp"
    unfolding greedy_cur_def using p(2) by simp
  show rest: "set (greedy_rest endp os) = set os - {greedy_cur endp os}"
    unfolding greedy_rest_def greedy_cur_def by (rule remove_nth(1)[OF p(1) assms(2)])
  show drest: "distinct (greedy_rest endp os)"
    unfolding greedy_rest_def by (rule remove_nth(2)[OF p(1) assms(2)])
  have nself: "\<And>x. adjacent (greedy_cur endp os) x \<Longrightarrow> x \<noteq> greedy_cur endp os"
    using adjacent_neq by blast
  show "set (greedy_open grid start endp os) =
           (set os - {greedy_cur endp os}) \<union> {x. adjacent (greedy_cur endp os) x \<and> passable grid x \<and> x \<noteq> start}"
    unfolding greedy_open_def using rest by (auto simp: set_candidates)
  show "distinct (greedy_open grid start endp os)"
    unfolding greedy_open_def using drest by (auto simp: distinct_candidates)
  show "\<And>x. greedy_cf grid start endp os cf x =
           (if adjacent (greedy_cur endp os) x \<and> passable grid x \<and> x \<noteq> start \<and> x \<notin> set os
            then Some (greedy_cur endp os) else cf x)"
    unfolding greedy_cf_def rest using nself by (auto simp: set_candidates)
qed

lemma greedy_cur_end:
  assumes "endp \<in> set os"
  shows "greedy_cur endp os = endp"
proof -
  from assms have "os \<noteq> []" by auto
  from greedy_pick_min(2)[OF this assms, where h = "\<lambda>pos. heuristic pos endp"]
  have "heuristic (greedy_cur endp os) endp = 0" by (simp add: greedy_cur_def)
  then show ?thesis by (rule heuristic_zero)
qed

lemma heuristic_one_adjacent: "heuristic x e = Suc 0 \<longleftrightarrow> adjacent x e"
  unfolding heuristic_def adjacent_def by arith

lemma greedyB_step:
  assumes B: "greedyB grid start endp os cf vis" and ne: "os \<noteq> []"
    and nend: "greedy_cur endp os \<noteq> endp" and pe: "passable grid endp" and se: "start \<noteq> endp"
  shows "greedyB grid start endp (greedy_open grid start endp os) (greedy_cf grid start endp os cf) (vis @ [greedy_cur endp os]) \<or>
         greedyC grid start endp (greedy_open grid start endp os) (greedy_cf grid start endp os cf) (vis @ [greedy_cur endp os]) \<or>
         greedyD grid start endp (greedy_open grid start endp os) (greedy_cf grid start endp os cf) (vis @ [greedy_cur endp os])"
proof -
  define cur where "cur = greedy_cur endp os"
  define os' where "os' = greedy_open grid start endp os"
  define cf' where "cf' = greedy_cf grid start endp os cf"
  from B have vne: "vis \<noteq> []" and hd: "hd vis = start" and dv: "distinct vis" and dos: "distinct os"
    and disj: "set os \<inter> set vis = {}"
    and osB: "\<forall>x \<in> set os. cf x = Some start \<and> adjacent start x \<and> passable grid x \<and> x \<noteq> start"
    and dead: "\<forall>x \<in> set (tl vis). \<forall>y. adjacent x y \<and> passable grid y \<longrightarrow> y = start"
    and ev: "endp \<notin> set vis"
    unfolding greedyB_def by blast+
  note f = greedy_step_facts[OF ne dos, where endp = endp, folded cur_def]
  have curO: "cur \<in> set os" by (rule f(1))
  have curB: "cf cur = Some start" "adjacent start cur" "passable grid cur" "cur \<noteq> start"
    using osB curO by blast+
  have curV: "cur \<notin> set vis" using curO disj by auto
  have eO: "endp \<notin> set os" using greedy_cur_end[of endp os] nend by auto
  have setO': "set os' = (set os - {cur}) \<union> {x. adjacent cur x \<and> passable grid x \<and> x \<noteq> start}"
    unfolding os'_def by (rule f(5))
  have dO': "distinct os'" unfolding os'_def by (rule f(6))
  have cf': "\<And>x. cf' x = (if adjacent cur x \<and> passable grid x \<and> x \<noteq> start \<and> x \<notin> set os then Some cur else cf x)"
    unfolding cf'_def by (rule f(7))
  have cf'cur: "cf' cur = Some start" using cf'[of cur] curB(1) adjacent_neq[of cur cur] by auto
  have v1: "vis @ [cur] \<noteq> []" "hd (vis @ [cur]) = start" "distinct (vis @ [cur])" "endp \<notin> set (vis @ [cur])"
    "last (vis @ [cur]) = cur"
    using vne hd dv curV ev nend[folded cur_def] by auto
  have curO': "cur \<notin> set os'" using setO' adjacent_neq[of cur cur] by auto
  have hcur: "heuristic cur endp \<noteq> 0" using heuristic_zero[of cur endp] nend[folded cur_def] by auto
  consider (a) "\<forall>y. adjacent cur y \<and> passable grid y \<longrightarrow> y = start"
    | (b) "adjacent cur endp"
    | (c) "\<exists>y. adjacent cur y \<and> passable grid y \<and> y \<noteq> start" "\<not> adjacent cur endp"
    by blast
  then have "greedyB grid start endp os' cf' (vis @ [cur]) \<or> greedyC grid start endp os' cf' (vis @ [cur]) \<or>
             greedyD grid start endp os' cf' (vis @ [cur])"
  proof cases
    case a
    then have so: "set os' = set os - {cur}" using setO' by auto
    have cfe: "\<And>x. cf' x = cf x" using cf' a by auto
    have "set os' \<inter> set (vis @ [cur]) = {}" using so disj by auto
    moreover have "\<forall>x \<in> set os'. cf' x = Some start \<and> adjacent start x \<and> passable grid x \<and> x \<noteq> start"
      using so osB cfe by auto
    moreover have "\<forall>x \<in> set (tl (vis @ [cur])). \<forall>y. adjacent x y \<and> passable grid y \<longrightarrow> y = start"
      using dead a vne by auto
    ultimately have "greedyB grid start endp os' cf' (vis @ [cur])"
      unfolding greedyB_def using v1 dO' by blast
    then show ?thesis by blast
  next
    case b
    have "endp \<in> set os'" using setO' b pe se by auto
    moreover have "cf' endp = Some cur" using cf'[of endp] b pe se eO by auto
    ultimately have "greedyD grid start endp os' cf' (vis @ [cur])"
      unfolding greedyD_def using v1 cf'cur curB b by simp
    then show ?thesis by blast
  next
    case c
    from c(1) obtain y where y: "adjacent cur y" "passable grid y" "y \<noteq> start" by blast
    then have "y \<in> set os'" using setO' by auto
    with y curB have stuck: "\<exists>x y. adjacent x y \<and> passable grid x \<and> passable grid y \<and> x \<noteq> start \<and> y \<noteq> start \<and>
            (x \<in> set os' \<or> y \<in> set os')" by blast
    have h2: "\<And>x. x \<in> set os \<Longrightarrow> heuristic x endp \<noteq> 1"
    proof
      fix x assume "x \<in> set os" "heuristic x endp = 1"
      with f(2)[of x] hcur have "heuristic cur endp = 1" by simp
      with c(2) show False by (simp add: heuristic_one_adjacent)
    qed
    have c4: "\<forall>x \<in> set os'. heuristic x endp = 1 \<longrightarrow> cf' x = Some cur \<and> adjacent cur x"
    proof (intro ballI impI)
      fix x assume x: "x \<in> set os'" "heuristic x endp = 1"
      with h2 have "x \<notin> set os" by blast
      with x(1) setO' have "adjacent cur x \<and> passable grid x \<and> x \<noteq> start" by auto
      with cf'[of x] \<open>x \<notin> set os\<close> show "cf' x = Some cur \<and> adjacent cur x" by simp
    qed
    have c5: "endp \<notin> set os'" using setO' eO c(2) by auto
    have c6: "\<forall>x \<in> set os'. passable grid x \<and> x \<noteq> start" using setO' osB by auto
    have "greedyC grid start endp os' cf' (vis @ [cur])"
      unfolding greedyC_def using dO' stuck v1 curB curO' c4 c5 c6 by simp
    then show ?thesis by blast
  qed
  then show ?thesis unfolding cur_def os'_def cf'_def .
qed

lemma greedyC_step:
  assumes C: "greedyC grid start endp os cf vis" and pe: "passable grid endp" and se: "start \<noteq> endp"
  shows "os \<noteq> []" and "greedy_cur endp os \<noteq> endp"
    and "greedyC grid start endp (greedy_open grid start endp os) (greedy_cf grid start endp os cf) (vis @ [greedy_cur endp os]) \<or>
         greedyF start endp (greedy_open grid start endp os) (greedy_cf grid start endp os cf)"
proof -
  define cur where "cur = greedy_cur endp os"
  define os' where "os' = greedy_open grid start endp os"
  define cf' where "cf' = greedy_cf grid start endp os cf"
  define P where "P = last vis"
  from C have dos: "distinct os"
    and stuck: "\<exists>x y. adjacent x y \<and> passable grid x \<and> passable grid y \<and> x \<noteq> start \<and> y \<noteq> start \<and>
            (x \<in> set os \<or> y \<in> set os)"
    and vne: "vis \<noteq> []" and Ps: "P \<noteq> start" and PO: "P \<notin> set os" and Pp: "passable grid P"
    and c4: "\<forall>x \<in> set os. heuristic x endp = 1 \<longrightarrow> cf x = Some P \<and> adjacent P x"
    and eO: "endp \<notin> set os"
    and c6: "\<forall>x \<in> set os. passable grid x \<and> x \<noteq> start"
    unfolding greedyC_def P_def by blast+
  from stuck show ne: "os \<noteq> []" by auto
  note f = greedy_step_facts[OF ne dos, where endp = endp, folded cur_def]
  have curO: "cur \<in> set os" by (rule f(1))
  with eO show "greedy_cur endp os \<noteq> endp" unfolding cur_def by auto
  then have nend: "cur \<noteq> endp" by (simp add: cur_def)
  have curp: "passable grid cur" "cur \<noteq> start" using c6 curO by blast+
  have setO': "set os' = (set os - {cur}) \<union> {x. adjacent cur x \<and> passable grid x \<and> x \<noteq> start}"
    unfolding os'_def by (rule f(5))
  have dO': "distinct os'" unfolding os'_def by (rule f(6))
  have cf': "\<And>x. cf' x = (if adjacent cur x \<and> passable grid x \<and> x \<noteq> start \<and> x \<notin> set os then Some cur else cf x)"
    unfolding cf'_def by (rule f(7))
  have cf'cur: "cf' cur = cf cur" using cf'[of cur] adjacent_neq[of cur cur] by auto
  have curO': "cur \<notin> set os'" using setO' adjacent_neq[of cur cur] by auto
  have hcur: "heuristic cur endp \<noteq> 0" using heuristic_zero[of cur endp] nend by auto
  have "greedyC grid start endp os' cf' (vis @ [cur]) \<or> greedyF start endp os' cf'"
  proof (cases "heuristic cur endp = 1")
    case True
    then have ae: "adjacent cur endp" by (simp add: heuristic_one_adjacent)
    from c4 curO True have cP: "cf cur = Some P" "adjacent P cur" by blast+
    have "endp \<in> set os'" using setO' ae pe se by auto
    moreover have "cf' endp = Some cur" using cf'[of endp] ae pe se eO by auto
    moreover have "cf' cur = Some P" using cf'cur cP(1) by simp
    moreover have "cf' P = Some cur" using cf'[of P] adjacent_sym[OF cP(2)] Pp Ps PO by auto
    ultimately have "greedyF start endp os' cf'"
      unfolding greedyF_def using curp(2) Ps by blast
    then show ?thesis by blast
  next
    case False
    then have nae: "\<not> adjacent cur endp" by (simp add: heuristic_one_adjacent)
    from stuck obtain x y where xy: "adjacent x y" "passable grid x" "passable grid y" "x \<noteq> start" "y \<noteq> start"
      "x \<in> set os \<or> y \<in> set os" by blast
    have "x \<in> set os' \<or> y \<in> set os'"
    proof (cases "x = cur \<or> y = cur")
      case True
      then show ?thesis
      proof
        assume "x = cur"
        with xy have "y \<in> set os'" using setO' by auto
        then show ?thesis by blast
      next
        assume "y = cur"
        with xy adjacent_sym[OF xy(1)] have "x \<in> set os'" using setO' by auto
        then show ?thesis by blast
      qed
    next
      case False
      with xy(6) setO' show ?thesis by auto
    qed
    with xy have stuck': "\<exists>x y. adjacent x y \<and> passable grid x \<and> passable grid y \<and> x \<noteq> start \<and> y \<noteq> start \<and>
            (x \<in> set os' \<or> y \<in> set os')" by blast
    have h2: "\<And>x. x \<in> set os \<Longrightarrow> heuristic x endp \<noteq> 1"
    proof
      fix x assume "x \<in> set os" "heuristic x endp = 1"
      with f(2)[of x] hcur have "heuristic cur endp = 1" by simp
      with False show False by simp
    qed
    have c4': "\<forall>x \<in> set os'. heuristic x endp = 1 \<longrightarrow> cf' x = Some cur \<and> adjacent cur x"
    proof (intro ballI impI)
      fix x assume x: "x \<in> set os'" "heuristic x endp = 1"
      with h2 have "x \<notin> set os" by blast
      with x(1) setO' have "adjacent cur x \<and> passable grid x \<and> x \<noteq> start" by auto
      with cf'[of x] \<open>x \<notin> set os\<close> show "cf' x = Some cur \<and> adjacent cur x" by simp
    qed
    have c5': "endp \<notin> set os'" using setO' eO nae by auto
    have c6': "\<forall>x \<in> set os'. passable grid x \<and> x \<noteq> start" using setO' c6 by auto
    have "greedyC grid start endp os' cf' (vis @ [cur])"
      unfolding greedyC_def using dO' stuck' curp curO' c4' c5' c6' by simp
    then show ?thesis by blast
  qed
  then show "greedyC grid start endp (greedy_open grid start endp os) (greedy_cf grid start endp os cf) (vis @ [greedy_cur endp os]) \<or>
         greedyF start endp (greedy_open grid start endp os) (greedy_cf grid start endp os cf)"
    unfolding cur_def os'_def cf'_def .
qed

lemma reconstruct_two:
  assumes "cf e = Some s" and "e \<noteq> s"
  shows "reconstruct cf s e [] = Some (Inr [s, e])"
  using assms by (subst reconstruct.simps, simp, subst reconstruct.simps, simp)

lemma reconstruct_three:
  assumes "cf e = Some l" and "cf l = Some s" and "e \<noteq> s" and "l \<noteq> s"
  shows "reconstruct cf s e [] = Some (Inr [s, l, e])"
  using assms by (subst reconstruct.simps, simp, subst reconstruct.simps, simp, subst reconstruct.simps, simp)

lemma greedyB_result_fail:
  assumes "greedyB grid start endp [] cf vis"
  shows "goodResult grid start endp \<lparr>path = [], visited = vis, success = False\<rparr>"
  using assms unfolding greedyB_def goodResult_def by simp

lemma greedyB_result_end:
  assumes B: "greedyB grid start endp os cf vis" and e: "endp \<in> set os"
    and ps: "passable grid start" and se: "start \<noteq> endp"
  shows "reconstruct cf start endp [] = Some (Inr [start, endp])"
    and "goodResult grid start endp \<lparr>path = [start, endp], visited = vis @ [endp], success = True\<rparr>"
proof -
  from B e have c: "cf endp = Some start" "adjacent start endp" "passable grid endp"
    and v: "vis \<noteq> []" "hd vis = start" "distinct vis" "endp \<notin> set vis"
    unfolding greedyB_def by blast+
  show "reconstruct cf start endp [] = Some (Inr [start, endp])"
    using c(1) se by (intro reconstruct_two) auto
  show "goodResult grid start endp \<lparr>path = [start, endp], visited = vis @ [endp], success = True\<rparr>"
    unfolding goodResult_def validWalk_def walk_def using c v ps se by simp
qed

lemma greedyD_result:
  assumes D: "greedyD grid start endp os cf vis"
    and ps: "passable grid start" and pe: "passable grid endp" and se: "start \<noteq> endp"
  shows "greedy_cur endp os = endp" and "os \<noteq> []"
    and "reconstruct cf start endp [] = Some (Inr [start, last vis, endp])"
    and "goodResult grid start endp \<lparr>path = [start, last vis, endp], visited = vis @ [endp], success = True\<rparr>"
proof -
  from D have e: "endp \<in> set os" and v: "vis \<noteq> []" "hd vis = start" "distinct vis" "endp \<notin> set vis"
    and l: "last vis \<noteq> start" "cf endp = Some (last vis)" "cf (last vis) = Some start"
      "adjacent (last vis) endp" "adjacent start (last vis)" "passable grid (last vis)"
    unfolding greedyD_def by blast+
  show "greedy_cur endp os = endp" using e by (rule greedy_cur_end)
  show "os \<noteq> []" using e by auto
  show "reconstruct cf start endp [] = Some (Inr [start, last vis, endp])"
    using l(1,2,3) se by (intro reconstruct_three) auto
  have "last vis \<noteq> endp" using l(4) adjacent_neq by blast
  then show "goodResult grid start endp \<lparr>path = [start, last vis, endp], visited = vis @ [endp], success = True\<rparr>"
    unfolding goodResult_def validWalk_def walk_def using l v ps pe se by simp
qed

lemma greedyF_diverges:
  assumes F: "greedyF start endp os cf" and se: "start \<noteq> endp"
  shows "greedy_cur endp os = endp" and "os \<noteq> []" and "reconstruct cf start endp [] = None"
proof -
  from F obtain l p where e: "endp \<in> set os" and c: "cf endp = Some l" "cf l = Some p" "cf p = Some l"
    "l \<noteq> start" "p \<noteq> start" unfolding greedyF_def by blast
  show "greedy_cur endp os = endp" using e by (rule greedy_cur_end)
  show "os \<noteq> []" using e by auto
  have "reconstruct cf start endp [] = reconstruct cf start l [endp]"
    using c(1) se by (subst reconstruct.simps) auto
  also have "\<dots> = None" using c(2,3,4,5) by (rule reconstruct_cycle)
  finally show "reconstruct cf start endp [] = None" .
qed

lemma greedy_body:
  assumes "wellFormed grid"
  shows "(if os = []
      then Some (Inr (grid, \<lparr>path = [], visited = vis, success = False\<rparr>))
      else let currentIndex = greedy_pick (\<lambda>pos. heuristic pos endp) os;
               current = os ! currentIndex
           in if current = endp
              then finish grid (vis @ [current]) (reconstruct cf start current [])
              else case greedy_neighbors grid (length grid) (length (grid ! 0)) {start} current
                         (candidates current)
                         (take currentIndex os @ drop (Suc currentIndex) os, cf) of
                   Inl e \<Rightarrow> Some (Inl e)
                   | Inr st \<Rightarrow> f grid (length grid) (length (grid ! 0)) start endp {start}
                        (fst st) (snd st) (vis @ [current])) =
     (if os = [] then Some (Inr (grid, \<lparr>path = [], visited = vis, success = False\<rparr>))
      else if greedy_cur endp os = endp
      then finish grid (vis @ [endp]) (reconstruct cf start endp [])
      else f grid (length grid) (length (grid ! 0)) start endp {start}
             (greedy_open grid start endp os) (greedy_cf grid start endp os cf) (vis @ [greedy_cur endp os]))"
  unfolding greedy_cur_def greedy_rest_def greedy_open_def greedy_cf_def
  by (simp add: Let_def greedy_neighbors_wellFormed[OF assms distinct_candidates])

lemma greedy_loop_partial:
  assumes run: "greedy_loop grid rows cols start endp closedSet os cf vis = Some y"
  shows "greedy_pre grid rows cols start endp closedSet \<and> greedy_phase grid start endp os cf vis \<longrightarrow>
         (\<exists>r. y = Inr (grid, r) \<and> goodResult grid start endp r)"
proof (rule greedy_loop.raw_induct[where P = "\<lambda>grid rows cols start endp closedSet os cf vis y.
         greedy_pre grid rows cols start endp closedSet \<and> greedy_phase grid start endp os cf vis \<longrightarrow>
         (\<exists>r. y = Inr (grid, r) \<and> goodResult grid start endp r)", OF _ run])
  fix f :: "Grid \<Rightarrow> nat \<Rightarrow> nat \<Rightarrow> Position \<Rightarrow> Position \<Rightarrow> Position set \<Rightarrow> Position list \<Rightarrow> (Position \<rightharpoonup> Position) \<Rightarrow> Position list \<Rightarrow> (error + Grid \<times> AlgorithmResult) option"
  fix grid rows cols start endp closedSet os cf vis y
  assume IH: "\<And>grid2 rows2 cols2 start2 endp2 closedSet2 os2 cf2 vis2 y2.
        f grid2 rows2 cols2 start2 endp2 closedSet2 os2 cf2 vis2 = Some y2 \<Longrightarrow>
        greedy_pre grid2 rows2 cols2 start2 endp2 closedSet2 \<and> greedy_phase grid2 start2 endp2 os2 cf2 vis2 \<longrightarrow>
         (\<exists>r. y2 = Inr (grid2, r) \<and> goodResult grid2 start2 endp2 r)"
    and body: "(if os = []
      then Some (Inr (grid, \<lparr>path = [], visited = vis, success = False\<rparr>))
      else let currentIndex = greedy_pick (\<lambda>pos. heuristic pos endp) os;
               current = os ! currentIndex
           in if current = endp
              then finish grid (vis @ [current]) (reconstruct cf start current [])
              else case greedy_neighbors grid rows cols closedSet current
                         (candidates current)
                         (take currentIndex os @ drop (Suc currentIndex) os, cf) of
                   Inl e \<Rightarrow> Some (Inl e)
                   | Inr st \<Rightarrow> f grid rows cols start endp closedSet
                        (fst st) (snd st) (vis @ [current])) = Some y"
  show "greedy_pre grid rows cols start endp closedSet \<and> greedy_phase grid start endp os cf vis \<longrightarrow>
         (\<exists>r. y = Inr (grid, r) \<and> goodResult grid start endp r)"
  proof (intro impI; elim conjE)
    assume pre: "greedy_pre grid rows cols start endp closedSet" and ph: "greedy_phase grid start endp os cf vis"
    from pre have wf: "wellFormed grid" and rc: "rows = length grid" "cols = length (grid ! 0)" "closedSet = {start}"
      and ps: "passable grid start" and pe: "passable grid endp" and se: "start \<noteq> endp"
      unfolding greedy_pre_def by blast+
    define cur where "cur = greedy_cur endp os"
    define os' where "os' = greedy_open grid start endp os"
    define cf' where "cf' = greedy_cf grid start endp os cf"
    have body': "(if os = [] then Some (Inr (grid, \<lparr>path = [], visited = vis, success = False\<rparr>))
      else if cur = endp
      then finish grid (vis @ [endp]) (reconstruct cf start endp [])
      else f grid rows cols start endp closedSet os' cf' (vis @ [cur])) = Some y"
      using body unfolding rc greedy_body[OF wf] cur_def os'_def cf'_def .
    have next_step: "os \<noteq> [] \<Longrightarrow> cur \<noteq> endp \<Longrightarrow> greedy_phase grid start endp os' cf' (vis @ [cur]) \<Longrightarrow>
         \<exists>r. y = Inr (grid, r) \<and> goodResult grid start endp r"
    proof -
      assume a: "os \<noteq> []" "cur \<noteq> endp" "greedy_phase grid start endp os' cf' (vis @ [cur])"
      with body' have "f grid rows cols start endp closedSet os' cf' (vis @ [cur]) = Some y" by simp
      from IH[OF this] pre a(3) show ?thesis by blast
    qed
    from ph consider (B) "greedyB grid start endp os cf vis" | (C) "greedyC grid start endp os cf vis"
      | (D) "greedyD grid start endp os cf vis" | (F) "greedyF start endp os cf"
      unfolding greedy_phase_def by blast
    then show "\<exists>r. y = Inr (grid, r) \<and> goodResult grid start endp r"
    proof cases
      case B
      show ?thesis
      proof (cases "os = []")
        case True
        with body' have "y = Inr (grid, \<lparr>path = [], visited = vis, success = False\<rparr>)" by simp
        with greedyB_result_fail[OF B[unfolded True]] show ?thesis by blast
      next
        case False
        show ?thesis
        proof (cases "cur = endp")
          case True
          have "endp \<in> set os"
            using greedy_pick_min(1)[OF False, of "\<lambda>pos. heuristic pos endp"] True
            unfolding cur_def greedy_cur_def by (metis nth_mem)
          note r = greedyB_result_end[OF B this ps se]
          from body' False True r(1)
          have "y = Inr (grid, \<lparr>path = [start, endp], visited = vis @ [endp], success = True\<rparr>)"
            by (simp add: finish_def)
          with r(2) show ?thesis by blast
        next
          case ne: False
          from greedyB_step[OF B False ne[unfolded cur_def] pe se]
          have "greedy_phase grid start endp os' cf' (vis @ [cur])"
            unfolding greedy_phase_def os'_def cf'_def cur_def by blast
          from next_step[OF False ne this] show ?thesis .
        qed
      qed
    next
      case C
      note c = greedyC_step[OF C pe se]
      from c(3) have "greedy_phase grid start endp os' cf' (vis @ [cur])"
        unfolding greedy_phase_def os'_def cf'_def cur_def by blast
      from next_step[OF c(1) c(2)[folded cur_def] this] show ?thesis .
    next
      case D
      note d = greedyD_result[OF D ps pe se]
      from body' d(1,2,3)
      have "y = Inr (grid, \<lparr>path = [start, last vis, endp], visited = vis @ [endp], success = True\<rparr>)"
        by (simp add: finish_def cur_def)
      with d(4) show ?thesis by blast
    next
      case F
      note d = greedyF_diverges[OF F se]
      from body' d have False by (simp add: finish_def cur_def)
      then show ?thesis ..
    qed
  qed
qed

lemma greedy_loop_doomed_aux:
  assumes run: "greedy_loop grid rows cols start endp closedSet os cf vis = Some y"
  shows "greedy_pre grid rows cols start endp closedSet \<and>
         (greedyC grid start endp os cf vis \<or> greedyF start endp os cf) \<longrightarrow> False"
proof (rule greedy_loop.raw_induct[where P = "\<lambda>grid rows cols start endp closedSet os cf vis y.
         greedy_pre grid rows cols start endp closedSet \<and>
         (greedyC grid start endp os cf vis \<or> greedyF start endp os cf) \<longrightarrow> False", OF _ run])
  fix f :: "Grid \<Rightarrow> nat \<Rightarrow> nat \<Rightarrow> Position \<Rightarrow> Position \<Rightarrow> Position set \<Rightarrow> Position list \<Rightarrow> (Position \<rightharpoonup> Position) \<Rightarrow> Position list \<Rightarrow> (error + Grid \<times> AlgorithmResult) option"
  fix grid rows cols start endp closedSet os cf vis y
  assume IH: "\<And>grid2 rows2 cols2 start2 endp2 closedSet2 os2 cf2 vis2 y2.
        f grid2 rows2 cols2 start2 endp2 closedSet2 os2 cf2 vis2 = Some y2 \<Longrightarrow>
        greedy_pre grid2 rows2 cols2 start2 endp2 closedSet2 \<and>
        (greedyC grid2 start2 endp2 os2 cf2 vis2 \<or> greedyF start2 endp2 os2 cf2) \<longrightarrow> False"
    and body: "(if os = []
      then Some (Inr (grid, \<lparr>path = [], visited = vis, success = False\<rparr>))
      else let currentIndex = greedy_pick (\<lambda>pos. heuristic pos endp) os;
               current = os ! currentIndex
           in if current = endp
              then finish grid (vis @ [current]) (reconstruct cf start current [])
              else case greedy_neighbors grid rows cols closedSet current
                         (candidates current)
                         (take currentIndex os @ drop (Suc currentIndex) os, cf) of
                   Inl e \<Rightarrow> Some (Inl e)
                   | Inr st \<Rightarrow> f grid rows cols start endp closedSet
                        (fst st) (snd st) (vis @ [current])) = Some y"
  show "greedy_pre grid rows cols start endp closedSet \<and>
         (greedyC grid start endp os cf vis \<or> greedyF start endp os cf) \<longrightarrow> False"
  proof (intro impI; elim conjE)
    assume pre: "greedy_pre grid rows cols start endp closedSet"
      and ph: "greedyC grid start endp os cf vis \<or> greedyF start endp os cf"
    from pre have wf: "wellFormed grid" and rc: "rows = length grid" "cols = length (grid ! 0)" "closedSet = {start}"
      and pe: "passable grid endp" and se: "start \<noteq> endp"
      unfolding greedy_pre_def by blast+
    define cur where "cur = greedy_cur endp os"
    define os' where "os' = greedy_open grid start endp os"
    define cf' where "cf' = greedy_cf grid start endp os cf"
    have body': "(if os = [] then Some (Inr (grid, \<lparr>path = [], visited = vis, success = False\<rparr>))
      else if cur = endp
      then finish grid (vis @ [endp]) (reconstruct cf start endp [])
      else f grid rows cols start endp closedSet os' cf' (vis @ [cur])) = Some y"
      using body unfolding rc greedy_body[OF wf] cur_def os'_def cf'_def .
    from ph show False
    proof
      assume C: "greedyC grid start endp os cf vis"
      note c = greedyC_step[OF C pe se]
      from body' c(1) c(2)[folded cur_def]
      have "f grid rows cols start endp closedSet os' cf' (vis @ [cur]) = Some y" by simp
      from IH[OF this] pre c(3) show False unfolding os'_def cf'_def cur_def by blast
    next
      assume F: "greedyF start endp os cf"
      note d = greedyF_diverges[OF F se]
      from body' d show False by (simp add: finish_def cur_def)
    qed
  qed
qed

lemma greedy_loop_doomed:
  assumes "greedy_pre grid rows cols start endp closedSet"
    and "greedyC grid start endp os cf vis \<or> greedyF start endp os cf"
  shows "greedy_loop grid rows cols start endp closedSet os cf vis = None"
proof (cases "greedy_loop grid rows cols start endp closedSet os cf vis")
  case None
  then show ?thesis .
next
  case (Some y)
  from greedy_loop_doomed_aux[OF Some] assms show ?thesis by blast
qed

lemma greedy_first_round:
  assumes wf: "wellFormed grid" and se: "start \<noteq> endp"
  shows "greedy_loop grid (length grid) (length (grid ! 0)) start endp {start} [start] Map.empty [] =
         greedy_loop grid (length grid) (length (grid ! 0)) start endp {start}
           (greedy_open grid start endp [start]) (greedy_cf grid start endp [start] Map.empty) [start]"
    and "greedyB grid start endp (greedy_open grid start endp [start]) (greedy_cf grid start endp [start] Map.empty) [start]"
proof -
  have cur: "greedy_cur endp [start] = start" by (simp add: greedy_cur_def greedy_pick_def)
  show "greedy_loop grid (length grid) (length (grid ! 0)) start endp {start} [start] Map.empty [] =
         greedy_loop grid (length grid) (length (grid ! 0)) start endp {start}
           (greedy_open grid start endp [start]) (greedy_cf grid start endp [start] Map.empty) [start]"
    by (subst greedy_loop_unfold[OF wf]) (simp add: cur se)
  have ne: "[start] \<noteq> []" and d: "distinct [start]" by simp_all
  note f = greedy_step_facts[OF ne d, where endp = endp, unfolded cur]
  have so: "set (greedy_open grid start endp [start]) = {x. adjacent start x \<and> passable grid x \<and> x \<noteq> start}"
    using f(5)[of grid start] by auto
  have cfx: "\<And>x. x \<in> set (greedy_open grid start endp [start]) \<Longrightarrow> greedy_cf grid start endp [start] Map.empty x = Some start"
    using f(7)[of grid start Map.empty] so by auto
  show "greedyB grid start endp (greedy_open grid start endp [start]) (greedy_cf grid start endp [start] Map.empty) [start]"
    unfolding greedyB_def using f(6)[of grid start] so cfx se by auto
qed

lemma greedyBestFirst_partial:
  assumes wf: "wellFormed grid" and s: "lastOfKind Start grid = Some start" and e: "lastOfKind End grid = Some endp"
    and run: "greedyBestFirst grid = Some y"
  shows "\<exists>r. y = Inr (grid, r) \<and> goodResult grid start endp r"
proof -
  have se: "start \<noteq> endp" using lastOfKind_distinct_kinds[OF s e] by simp
  have pre: "greedy_pre grid (length grid) (length (grid ! 0)) start endp {start}"
    unfolding greedy_pre_def using wf se lastOfKind_passable[OF s] lastOfKind_passable[OF e] by simp
  note fr = greedy_first_round[OF wf se]
  have "greedyBestFirst grid = greedy_loop grid (length grid) (length (grid ! 0)) start endp {start}
           (greedy_open grid start endp [start]) (greedy_cf grid start endp [start] Map.empty) [start]"
    unfolding greedyBestFirst_wellFormed[OF wf] s e using fr(1) by simp
  with run have "greedy_loop grid (length grid) (length (grid ! 0)) start endp {start}
           (greedy_open grid start endp [start]) (greedy_cf grid start endp [start] Map.empty) [start] = Some y"
    by simp
  from greedy_loop_partial[OF this] pre fr(2) show ?thesis unfolding greedy_phase_def by blast
qed

section \<open>What every returned result satisfies\<close>

lemma strategy_result:
  assumes wf: "wellFormed grid" and f: "f \<in> set strategies" and run: "f grid = Some (Inr (grid', r))"
  shows "grid' = grid"
    and "\<And>start endp. lastOfKind Start grid = Some start \<Longrightarrow> lastOfKind End grid = Some endp \<Longrightarrow>
           goodResult grid start endp r"
    and "lastOfKind Start grid = None \<or> lastOfKind End grid = None \<Longrightarrow>
           r = \<lparr>path = [], visited = [], success = False\<rparr>"
proof -
  have missing: "lastOfKind Start grid = None \<or> lastOfKind End grid = None \<Longrightarrow>
      grid' = grid \<and> r = \<lparr>path = [], visited = [], success = False\<rparr>"
  proof -
    assume "lastOfKind Start grid = None \<or> lastOfKind End grid = None"
    then have "kindCount Start grid = 0 \<or> kindCount End grid = 0" by (simp add: lastOfKind_None_iff)
    from missing_marker_result[OF wf this] f run show ?thesis
      unfolding strategies_def by auto
  qed
  have present: "\<And>start endp. lastOfKind Start grid = Some start \<Longrightarrow> lastOfKind End grid = Some endp \<Longrightarrow>
      grid' = grid \<and> goodResult grid start endp r"
  proof -
    fix start endp assume s: "lastOfKind Start grid = Some start" and e: "lastOfKind End grid = Some endp"
    from f consider "f = bfs" | "f = dfs" | "f = dijkstra" | "f = aStar" | "f = greedyBestFirst"
      unfolding strategies_def by auto
    then show "grid' = grid \<and> goodResult grid start endp r"
    proof cases
      case 1
      with bfs_correct[OF wf s e] run show ?thesis by auto
    next
      case 2
      with dfs_correct[OF wf s e] run show ?thesis by auto
    next
      case 3
      with dijkstra_correct[OF wf s e] run show ?thesis by auto
    next
      case 4
      with aStar_correct[OF wf s e] run show ?thesis by auto
    next
      case 5
      with greedyBestFirst_partial[OF wf s e] run show ?thesis by auto
    qed
  qed
  show "grid' = grid"
    using missing present by (cases "lastOfKind Start grid"; cases "lastOfKind End grid") auto
  show "\<And>start endp. lastOfKind Start grid = Some start \<Longrightarrow> lastOfKind End grid = Some endp \<Longrightarrow>
           goodResult grid start endp r"
    using present by blast
  show "lastOfKind Start grid = None \<or> lastOfKind End grid = None \<Longrightarrow>
           r = \<lparr>path = [], visited = [], success = False\<rparr>"
    using missing by blast
qed

section \<open>The claims about every strategy\<close>

lemma total_strategies_return:
  assumes wf: "wellFormed grid" and f: "f \<in> set [bfs, dfs, dijkstra, aStar]"
  shows "\<exists>r. f grid = Some (Inr (grid, r))"
proof (cases "lastOfKind Start grid = None \<or> lastOfKind End grid = None")
  case True
  then have "kindCount Start grid = 0 \<or> kindCount End grid = 0" by (simp add: lastOfKind_None_iff)
  from missing_marker_result[OF wf this] f show ?thesis by auto
next
  case False
  then obtain start endp where s: "lastOfKind Start grid = Some start" and e: "lastOfKind End grid = Some endp"
    by auto
  from f consider "f = bfs" | "f = dfs" | "f = dijkstra" | "f = aStar" by auto
  then show ?thesis
  proof cases
    case 1
    with bfs_correct[OF wf s e] show ?thesis by auto
  next
    case 2
    with dfs_correct[OF wf s e] show ?thesis by auto
  next
    case 3
    with dijkstra_correct[OF wf s e] show ?thesis by auto
  next
    case 4
    with aStar_correct[OF wf s e] show ?thesis by auto
  qed
qed

lemma greedy_two_rounds_doomed:
  assumes wf: "wellFormed grid" and s: "lastOfKind Start grid = Some start" and e: "lastOfKind End grid = Some endp"
    and os1: "greedy_open grid start endp [start] \<noteq> []"
    and cur: "greedy_cur endp (greedy_open grid start endp [start]) \<noteq> endp"
    and C: "greedyC grid start endp (greedy_open grid start endp (greedy_open grid start endp [start]))
              (greedy_cf grid start endp (greedy_open grid start endp [start]) (greedy_cf grid start endp [start] Map.empty))
              [start, greedy_cur endp (greedy_open grid start endp [start])]"
  shows "greedyBestFirst grid = None"
proof -
  have se: "start \<noteq> endp" using lastOfKind_distinct_kinds[OF s e] by simp
  have pre: "greedy_pre grid (length grid) (length (grid ! 0)) start endp {start}"
    unfolding greedy_pre_def using wf se lastOfKind_passable[OF s] lastOfKind_passable[OF e] by simp
  have "greedyBestFirst grid = greedy_loop grid (length grid) (length (grid ! 0)) start endp {start}
           (greedy_open grid start endp [start]) (greedy_cf grid start endp [start] Map.empty) [start]"
    unfolding greedyBestFirst_wellFormed[OF wf] s e using greedy_first_round(1)[OF wf se] by simp
  also have "\<dots> = greedy_loop grid (length grid) (length (grid ! 0)) start endp {start}
           (greedy_open grid start endp (greedy_open grid start endp [start]))
           (greedy_cf grid start endp (greedy_open grid start endp [start]) (greedy_cf grid start endp [start] Map.empty))
           ([start] @ [greedy_cur endp (greedy_open grid start endp [start])])"
    using os1 cur by (subst greedy_loop_unfold[OF wf]) simp
  also have "\<dots> = None" using C by (intro greedy_loop_doomed[OF pre]) simp
  finally show ?thesis .
qed

text \<open>
  C1. \<open>bfs\<close>, \<open>dfs\<close>, \<open>dijkstra\<close> and \<open>aStar\<close> return on every well-formed grid
  (\<open>total_strategies_return\<close>), but \<open>greedyBestFirst\<close> does not: its closed set only
  ever holds the start, so an expanded position is put back into the open set by its
  neighbour. On the grid \<open>[[start, empty, empty, wall, end]]\<close>, where the end cannot be
  reached, the loop expands \<open>(0,1)\<close> and \<open>(0,2)\<close> in turn for ever and never returns
  \<open>success = false\<close>.
\<close>

theorem greedyBestFirst_never_returns_unreachable:
  "greedyBestFirst (gridOf [[Start, Empty, Empty, Wall, End]]) = None"
proof -
  let ?g = "gridOf [[Start, Empty, Empty, Wall, End]]"
  have wf: "wellFormed ?g" by code_simp
  have s: "lastOfKind Start ?g = Some (pos 0 0)" by code_simp
  have e: "lastOfKind End ?g = Some (pos 0 4)" by code_simp
  have o1: "greedy_open ?g (pos 0 0) (pos 0 4) [pos 0 0] = [pos 0 1]" by code_simp
  have c1: "greedy_cur (pos 0 4) [pos 0 1] = pos 0 1" by code_simp
  have o2: "greedy_open ?g (pos 0 0) (pos 0 4) [pos 0 1] = [pos 0 2]" by code_simp
  have p: "passable ?g (pos 0 1)" "passable ?g (pos 0 2)" by code_simp+
  have a: "adjacent (pos 0 1) (pos 0 2)" by code_simp
  have h: "heuristic (pos 0 2) (pos 0 4) = 2" by code_simp
  have n: "pos 0 1 \<noteq> pos 0 0" "pos 0 2 \<noteq> pos 0 0" "pos 0 1 \<noteq> pos 0 2" "pos 0 4 \<noteq> pos 0 2" "pos 0 1 \<noteq> pos 0 4"
    by (simp_all add: pos_def)
  have "greedyC ?g (pos 0 0) (pos 0 4) [pos 0 2]
          (greedy_cf ?g (pos 0 0) (pos 0 4) [pos 0 1] (greedy_cf ?g (pos 0 0) (pos 0 4) [pos 0 0] Map.empty))
          [pos 0 0, pos 0 1]"
    unfolding greedyC_def using p a h n by auto
  then show ?thesis
    using n by (intro greedy_two_rounds_doomed[OF wf s e]) (simp_all add: o1 c1 o2)
qed

lemma visited_starts_at_start:
  assumes "wellFormed grid" and "lastOfKind Start grid = Some start" and "lastOfKind End grid = Some endp"
    and "f \<in> set strategies" and "f grid = Some (Inr (grid', r))"
  shows "visited r \<noteq> [] \<and> hd (visited r) = start"
  using strategy_result(2)[OF assms(1,4,5) assms(2,3)] unfolding goodResult_def by blast

text \<open>
  C10. Every result that a strategy returns on a well-formed grid with a start and an
  end has a non-empty \<open>visited\<close> beginning with the start (\<open>visited_starts_at_start\<close>), and
  \<open>bfs\<close>, \<open>dfs\<close>, \<open>dijkstra\<close> and \<open>aStar\<close> always return one. \<open>greedyBestFirst\<close> returns
  none on the grid \<open>[[start, empty, empty, end]]\<close>: when it expands \<open>(0,2)\<close> it puts
  \<open>(0,1)\<close> back into the open set with \<open>(0,2)\<close> as its origin, and the reconstruction
  from the end then walks between \<open>(0,2)\<close> and \<open>(0,1)\<close> for ever.
\<close>

theorem greedyBestFirst_never_returns_reachable:
  "greedyBestFirst (gridOf [[Start, Empty, Empty, End]]) = None"
proof -
  let ?g = "gridOf [[Start, Empty, Empty, End]]"
  have wf: "wellFormed ?g" by code_simp
  have s: "lastOfKind Start ?g = Some (pos 0 0)" by code_simp
  have e: "lastOfKind End ?g = Some (pos 0 3)" by code_simp
  have o1: "greedy_open ?g (pos 0 0) (pos 0 3) [pos 0 0] = [pos 0 1]" by code_simp
  have c1: "greedy_cur (pos 0 3) [pos 0 1] = pos 0 1" by code_simp
  have o2: "greedy_open ?g (pos 0 0) (pos 0 3) [pos 0 1] = [pos 0 2]" by code_simp
  have cf2: "greedy_cf ?g (pos 0 0) (pos 0 3) [pos 0 1] (greedy_cf ?g (pos 0 0) (pos 0 3) [pos 0 0] Map.empty) (pos 0 2)
             = Some (pos 0 1)" by code_simp
  have p: "passable ?g (pos 0 1)" "passable ?g (pos 0 2)" by code_simp+
  have a: "adjacent (pos 0 1) (pos 0 2)" by code_simp
  have n: "pos 0 1 \<noteq> pos 0 0" "pos 0 2 \<noteq> pos 0 0" "pos 0 1 \<noteq> pos 0 2" "pos 0 3 \<noteq> pos 0 2" "pos 0 1 \<noteq> pos 0 3"
    by (simp_all add: pos_def)
  have "greedyC ?g (pos 0 0) (pos 0 3) [pos 0 2]
          (greedy_cf ?g (pos 0 0) (pos 0 3) [pos 0 1] (greedy_cf ?g (pos 0 0) (pos 0 3) [pos 0 0] Map.empty))
          [pos 0 0, pos 0 1]"
    unfolding greedyC_def using p a cf2 n by auto
  then show ?thesis
    using n by (intro greedy_two_rounds_doomed[OF wf s e]) (simp_all add: o1 c1 o2)
qed

lemma strategy_outcome:
  assumes wf: "wellFormed grid" and f: "f \<in> set strategies" and run: "f grid = Some y"
  shows "\<exists>r. y = Inr (grid, r)"
proof (cases "f = greedyBestFirst")
  case False
  with f have "f \<in> set [bfs, dfs, dijkstra, aStar]" by (simp add: strategies_def)
  from total_strategies_return[OF wf this] run show ?thesis by auto
next
  case True
  show ?thesis
  proof (cases "lastOfKind Start grid = None \<or> lastOfKind End grid = None")
    case True
    then have "kindCount Start grid = 0 \<or> kindCount End grid = 0" by (simp add: lastOfKind_None_iff)
    from missing_marker_result[OF wf this] run \<open>f = greedyBestFirst\<close> show ?thesis by auto
  next
    case False
    then obtain start endp where s: "lastOfKind Start grid = Some start" and e: "lastOfKind End grid = Some endp"
      by auto
    from greedyBestFirst_partial[OF wf s e] run \<open>f = greedyBestFirst\<close> show ?thesis by blast
  qed
qed

text \<open>
  What the returned results have in common: \<open>bfs\<close>, \<open>dfs\<close>, \<open>dijkstra\<close> and \<open>aStar\<close>
  return on every well-formed grid, and no result that one of the five strategies returns
  has a position twice in \<open>visited\<close>.
\<close>

lemma returned_visited_distinct:
  assumes "wellFormed grid" and "f \<in> set strategies"
  shows "(f \<in> set [bfs, dfs, dijkstra, aStar] \<longrightarrow> f grid \<noteq> None) \<and>
         (\<forall>y. f grid = Some y \<longrightarrow> (\<exists>r. y = Inr (grid, r) \<and> distinct (visited r)))"
proof (intro conjI allI impI)
  assume "f \<in> set [bfs, dfs, dijkstra, aStar]"
  from total_strategies_return[OF assms(1) this] show "f grid \<noteq> None" by auto
next
  fix y assume run: "f grid = Some y"
  from strategy_outcome[OF assms run] obtain r where y: "y = Inr (grid, r)" by blast
  have "distinct (visited r)"
  proof (cases "lastOfKind Start grid = None \<or> lastOfKind End grid = None")
    case True
    from strategy_result(3)[OF assms run[unfolded y] True] show ?thesis by simp
  next
    case False
    then obtain start endp where "lastOfKind Start grid = Some start" "lastOfKind End grid = Some endp" by auto
    from strategy_result(2)[OF assms run[unfolded y] this] show ?thesis unfolding goodResult_def by blast
  qed
  with y show "\<exists>r. y = Inr (grid, r) \<and> distinct (visited r)" by blast
qed

lemma returned_visited_distinct_example:
  "wellFormed (gridOf [[Start, Empty], [Empty, End]]) \<and>
   dfs \<in> set strategies \<and> dfs \<in> set [bfs, dfs, dijkstra, aStar] \<and>
   dfs (gridOf [[Start, Empty], [Empty, End]]) \<noteq> None \<and>
   (\<exists>r. dfs (gridOf [[Start, Empty], [Empty, End]]) = Some (Inr (gridOf [[Start, Empty], [Empty, End]], r)) \<and>
        distinct (visited r))"
proof -
  let ?g = "gridOf [[Start, Empty], [Empty, End]]"
  have wf: "wellFormed ?g" by code_simp
  have mem: "dfs \<in> set strategies" "dfs \<in> set [bfs, dfs, dijkstra, aStar]" by (simp_all add: strategies_def)
  have run: "dfs ?g = Some (Inr (?g, \<lparr>path = [pos 0 0, pos 0 1, pos 1 1],
                visited = [pos 0 0, pos 0 1, pos 1 1], success = True\<rparr>))" by code_simp
  from returned_visited_distinct[OF wf mem(1)] run wf mem show ?thesis by auto
qed

text \<open>
  A returned result with \<open>success = true\<close> carries a valid walk from the start to the
  end, and one with \<open>success = false\<close> an empty \<open>path\<close>.
\<close>

lemma returned_path_valid:
  assumes "wellFormed grid" and "f \<in> set strategies"
  shows "(f \<in> set [bfs, dfs, dijkstra, aStar] \<longrightarrow> f grid \<noteq> None) \<and>
         (\<forall>y. f grid = Some y \<longrightarrow> (\<exists>r. y = Inr (grid, r) \<and>
            (success r \<longrightarrow> (\<exists>start endp. lastOfKind Start grid = Some start \<and>
                 lastOfKind End grid = Some endp \<and> validWalk grid start endp (path r))) \<and>
            (\<not> success r \<longrightarrow> path r = [])))"
proof (intro conjI allI impI)
  assume "f \<in> set [bfs, dfs, dijkstra, aStar]"
  from total_strategies_return[OF assms(1) this] show "f grid \<noteq> None" by auto
next
  fix y assume run: "f grid = Some y"
  from strategy_outcome[OF assms run] obtain r where y: "y = Inr (grid, r)" by blast
  have "(success r \<longrightarrow> (\<exists>start endp. lastOfKind Start grid = Some start \<and>
            lastOfKind End grid = Some endp \<and> validWalk grid start endp (path r))) \<and>
        (\<not> success r \<longrightarrow> path r = [])"
  proof (cases "lastOfKind Start grid = None \<or> lastOfKind End grid = None")
    case True
    from strategy_result(3)[OF assms run[unfolded y] True] show ?thesis by simp
  next
    case False
    then obtain start endp where se: "lastOfKind Start grid = Some start" "lastOfKind End grid = Some endp"
      by auto
    from strategy_result(2)[OF assms run[unfolded y] se] se show ?thesis unfolding goodResult_def by blast
  qed
  with y show "\<exists>r. y = Inr (grid, r) \<and>
            (success r \<longrightarrow> (\<exists>start endp. lastOfKind Start grid = Some start \<and>
                 lastOfKind End grid = Some endp \<and> validWalk grid start endp (path r))) \<and>
            (\<not> success r \<longrightarrow> path r = [])" by blast
qed

lemma returned_path_valid_example:
  "wellFormed (gridOf [[Start, Empty, End]]) \<and> greedyBestFirst \<in> set strategies \<and>
   greedyBestFirst (gridOf [[Start, Empty, End]]) =
     Some (Inr (gridOf [[Start, Empty, End]],
       \<lparr>path = [pos 0 0, pos 0 1, pos 0 2], visited = [pos 0 0, pos 0 1, pos 0 2], success = True\<rparr>)) \<and>
   validWalk (gridOf [[Start, Empty, End]]) (pos 0 0) (pos 0 2) [pos 0 0, pos 0 1, pos 0 2] \<and>
   wellFormed (gridOf [[Start, Wall, End]]) \<and> aStar \<in> set strategies \<and>
   aStar \<in> set [bfs, dfs, dijkstra, aStar] \<and>
   (\<exists>r. aStar (gridOf [[Start, Wall, End]]) = Some (Inr (gridOf [[Start, Wall, End]], r)) \<and>
        \<not> success r \<and> path r = [])"
proof -
  let ?g = "gridOf [[Start, Empty, End]]" and ?h = "gridOf [[Start, Wall, End]]"
  have wf: "wellFormed ?g" "wellFormed ?h" by code_simp+
  have mem: "greedyBestFirst \<in> set strategies" "aStar \<in> set strategies"
    "aStar \<in> set [bfs, dfs, dijkstra, aStar]" by (simp_all add: strategies_def)
  have s: "lastOfKind Start ?g = Some (pos 0 0)" and e: "lastOfKind End ?g = Some (pos 0 2)" by code_simp+
  have run: "greedyBestFirst ?g = Some (Inr (?g,
       \<lparr>path = [pos 0 0, pos 0 1, pos 0 2], visited = [pos 0 0, pos 0 1, pos 0 2], success = True\<rparr>))"
    by code_simp
  have run': "aStar ?h = Some (Inr (?h, \<lparr>path = [], visited = [pos 0 0], success = False\<rparr>))"
    by code_simp
  from returned_path_valid[OF wf(1) mem(1)] run s e
  have "validWalk ?g (pos 0 0) (pos 0 2) [pos 0 0, pos 0 1, pos 0 2]" by auto
  moreover from returned_path_valid[OF wf(2) mem(2)] run'
  have "\<exists>r. aStar ?h = Some (Inr (?h, r)) \<and> \<not> success r \<and> path r = []" by auto
  ultimately show ?thesis using wf mem run by blast
qed

text \<open>
  C8. On a well-formed grid \<open>bfs\<close>, \<open>dfs\<close>, \<open>dijkstra\<close> and \<open>aStar\<close> return, and whenever
  one of the five strategies returns, it returns normally and the grid it leaves behind
  is the grid it was given.
\<close>

theorem input_grid_unchanged:
  assumes "wellFormed grid" and "f \<in> set strategies"
  shows "(f \<in> set [bfs, dfs, dijkstra, aStar] \<longrightarrow> f grid \<noteq> None) \<and>
         (\<forall>y. f grid = Some y \<longrightarrow> (\<exists>r. y = Inr (grid, r)))"
proof (intro conjI allI impI)
  assume "f \<in> set [bfs, dfs, dijkstra, aStar]"
  from total_strategies_return[OF assms(1) this] show "f grid \<noteq> None" by auto
next
  fix y assume "f grid = Some y"
  from strategy_outcome[OF assms this] show "\<exists>r. y = Inr (grid, r)" .
qed

theorem input_grid_unchanged_witness:
  "wellFormed (gridOf [[Start, Empty], [Wall, End]]) \<and> dijkstra \<in> set strategies \<and>
   dijkstra \<in> set [bfs, dfs, dijkstra, aStar] \<and>
   (\<exists>y. dijkstra (gridOf [[Start, Empty], [Wall, End]]) = Some y \<and>
        (\<exists>r. y = Inr (gridOf [[Start, Empty], [Wall, End]], r)))"
proof -
  let ?g = "gridOf [[Start, Empty], [Wall, End]]"
  have wf: "wellFormed ?g" by code_simp
  have mem: "dijkstra \<in> set strategies" "dijkstra \<in> set [bfs, dfs, dijkstra, aStar]"
    by (simp_all add: strategies_def)
  from input_grid_unchanged[OF wf mem(1)] mem(2) wf mem(1) show ?thesis by auto
qed

lemma greedy_rounds_loop:
  "greedy_rounds n grid rows cols start endp closedSet os cf vis = Some (os', cf', vis') \<Longrightarrow>
   greedy_loop grid rows cols start endp closedSet os cf vis =
   greedy_loop grid rows cols start endp closedSet os' cf' vis'"
proof (induction n arbitrary: os cf vis)
  case 0
  then show ?case by simp
next
  case (Suc n)
  from Suc.prems show ?case
    by (subst greedy_loop.simps)
       (auto simp: Let_def split: if_splits sum.splits dest!: Suc.IH)
qed

lemma greedyBestFirst_rounds_loop:
  assumes "greedyBestFirst_rounds n grid = Some (os, cf, vis)"
  shows "\<exists>start endp. greedyBestFirst grid =
           greedy_loop grid (length grid) (length (grid ! 0)) start endp {start} os cf vis"
  using assms unfolding greedyBestFirst_rounds_def greedyBestFirst_def
  by (auto simp: Let_def split: if_splits sum.splits option.splits prod.splits dest!: greedy_rounds_loop)

lemma greedyBestFirst_rounds_wellFormed:
  assumes "wellFormed grid"
  shows "greedyBestFirst_rounds n grid =
     (case (lastOfKind Start grid, lastOfKind End grid) of
        (Some start, Some endp) \<Rightarrow>
          greedy_rounds n grid (length grid) (length (grid ! 0)) start endp {start} [start] Map.empty []
      | _ \<Rightarrow> None)"
  unfolding greedyBestFirst_rounds_def Let_def greedy_scan_lastOfKind[OF assms]
  using wellFormed_nonempty[OF assms] by (simp split: option.splits)

text \<open>
  C2. \<open>visited\<close> is meant to hold no position twice, and it does in every result that
  \<open>bfs\<close>, \<open>dfs\<close>, \<open>dijkstra\<close> and \<open>aStar\<close> return (\<open>returned_visited_distinct\<close>). The
  \<open>visited\<close> array of \<open>greedyBestFirst\<close> does not: on the one-column grid
  \<open>[[start], [empty], [empty], [wall], [end]]\<close> the fourth round of its loop pushes
  \<open>(1,0)\<close> a second time, and the loop goes on like this without ever returning.
\<close>

theorem greedyBestFirst_visits_position_twice:
  "greedyBestFirst (gridOf [[Start], [Empty], [Empty], [Wall], [End]]) = None \<and>
   map_option (\<lambda>(openSet, cameFrom, visitedL). visitedL)
     (greedyBestFirst_rounds 4 (gridOf [[Start], [Empty], [Empty], [Wall], [End]])) =
   Some [pos 0 0, pos 1 0, pos 2 0, pos 1 0]"
proof
  let ?g = "gridOf [[Start], [Empty], [Empty], [Wall], [End]]"
  have wf: "wellFormed ?g" by code_simp
  have s: "lastOfKind Start ?g = Some (pos 0 0)" by code_simp
  have e: "lastOfKind End ?g = Some (pos 4 0)" by code_simp
  have o1: "greedy_open ?g (pos 0 0) (pos 4 0) [pos 0 0] = [pos 1 0]" by code_simp
  have c1: "greedy_cur (pos 4 0) [pos 1 0] = pos 1 0" by code_simp
  have o2: "greedy_open ?g (pos 0 0) (pos 4 0) [pos 1 0] = [pos 2 0]" by code_simp
  have p: "passable ?g (pos 1 0)" "passable ?g (pos 2 0)" by code_simp+
  have a: "adjacent (pos 1 0) (pos 2 0)" by code_simp
  have h: "heuristic (pos 2 0) (pos 4 0) = 2" by code_simp
  have n: "pos 1 0 \<noteq> pos 0 0" "pos 2 0 \<noteq> pos 0 0" "pos 1 0 \<noteq> pos 2 0" "pos 4 0 \<noteq> pos 2 0" "pos 1 0 \<noteq> pos 4 0"
    by (simp_all add: pos_def)
  have "greedyC ?g (pos 0 0) (pos 4 0) [pos 2 0]
          (greedy_cf ?g (pos 0 0) (pos 4 0) [pos 1 0] (greedy_cf ?g (pos 0 0) (pos 4 0) [pos 0 0] Map.empty))
          [pos 0 0, pos 1 0]"
    unfolding greedyC_def using p a h n by auto
  then show "greedyBestFirst ?g = None"
    using n by (intro greedy_two_rounds_doomed[OF wf s e]) (simp_all add: o1 c1 o2)
next
  show "map_option (\<lambda>(openSet, cameFrom, visitedL). visitedL)
     (greedyBestFirst_rounds 4 (gridOf [[Start], [Empty], [Empty], [Wall], [End]])) =
   Some [pos 0 0, pos 1 0, pos 2 0, pos 1 0]" by code_simp
qed

text \<open>
  C4. A successful result is meant to carry a walk from the start to the end, and the
  results that \<open>bfs\<close>, \<open>dfs\<close>, \<open>dijkstra\<close> and \<open>aStar\<close> return do
  (\<open>returned_path_valid\<close>). \<open>greedyBestFirst\<close> finds the end of the grid
  \<open>[[start, wall], [empty, empty], [wall, end]]\<close> in its fourth round, but by then the
  third round has pushed the expanded \<open>(1,0)\<close> again and recorded \<open>(1,1)\<close> as its
  origin, while \<open>(1,0)\<close> is the origin of \<open>(1,1)\<close>. The reconstruction from the end
  moves between these two positions and never arrives at the start, so no path is
  returned.
\<close>

theorem greedyBestFirst_reconstruction_cycles:
  "greedyBestFirst (gridOf [[Start, Wall], [Empty, Empty], [Wall, End]]) = None \<and>
   (\<exists>openSet cameFrom visitedL.
      greedyBestFirst_rounds 3 (gridOf [[Start, Wall], [Empty, Empty], [Wall, End]]) =
        Some (openSet, cameFrom, visitedL) \<and>
      openSet ! greedy_pick (\<lambda>p. heuristic p (pos 2 1)) openSet = pos 2 1 \<and>
      cameFrom (pos 2 1) = Some (pos 1 1) \<and>
      cameFrom (pos 1 1) = Some (pos 1 0) \<and>
      cameFrom (pos 1 0) = Some (pos 1 1) \<and>
      reconstruct cameFrom (pos 0 0) (pos 2 1) [] = None)"
proof -
  let ?g = "gridOf [[Start, Wall], [Empty, Empty], [Wall, End]]"
  have wf: "wellFormed ?g" by code_simp
  have s: "lastOfKind Start ?g = Some (pos 0 0)" by code_simp
  have e: "lastOfKind End ?g = Some (pos 2 1)" by code_simp
  have "map_option (\<lambda>(os, cf, vis). (os, cf (pos 2 1), cf (pos 1 1), cf (pos 1 0))) (greedyBestFirst_rounds 3 ?g)
     = Some ([pos 2 1, pos 1 0], Some (pos 1 1), Some (pos 1 0), Some (pos 1 1))"
    by code_simp
  then obtain os cf vis where r: "greedyBestFirst_rounds 3 ?g = Some (os, cf, vis)"
    and os: "os = [pos 2 1, pos 1 0]"
    and cf: "cf (pos 2 1) = Some (pos 1 1)" "cf (pos 1 1) = Some (pos 1 0)" "cf (pos 1 0) = Some (pos 1 1)"
    by auto
  have pick: "os ! greedy_pick (\<lambda>p. heuristic p (pos 2 1)) os = pos 2 1"
    unfolding os by code_simp
  have n: "pos 1 1 \<noteq> pos 0 0" "pos 1 0 \<noteq> pos 0 0" "pos 2 1 \<noteq> pos 0 0" by (simp_all add: pos_def)
  have "reconstruct cf (pos 0 0) (pos 1 1) [pos 2 1] = None"
    by (rule reconstruct_cycle[OF cf(2,3) n(1,2)])
  then have rec: "reconstruct cf (pos 0 0) (pos 2 1) [] = None"
    using cf(1) n(3) by (subst reconstruct.simps) simp
  from r have "greedy_rounds 3 ?g (length ?g) (length (?g ! 0)) (pos 0 0) (pos 2 1) {pos 0 0} [pos 0 0] Map.empty []
                 = Some (os, cf, vis)"
    unfolding greedyBestFirst_rounds_wellFormed[OF wf] s e by simp
  from greedy_rounds_loop[OF this]
  have "greedyBestFirst ?g = greedy_loop ?g (length ?g) (length (?g ! 0)) (pos 0 0) (pos 2 1) {pos 0 0} os cf vis"
    unfolding greedyBestFirst_wellFormed[OF wf] s e by simp
  also have "\<dots> = None"
    using pick rec os by (subst greedy_loop_unfold[OF wf]) (simp add: greedy_cur_def finish_def)
  finally have "greedyBestFirst ?g = None" .
  with r pick cf rec show ?thesis by blast
qed

end
